theory Spec2Isabelle
  imports Complex_Main
begin

section \<open>JavaScript values and built-ins used by the default command\<close>

text \<open>
  A string is a list of code units below 256, one \<open>char\<close> each; strings with other
  code units are outside the model. A JavaScript number is \<open>NaN\<close>, an infinity
  (\<open>Infinity True\<close> is the negative one) or \<open>Num v\<close> with \<open>v\<close> the value of a finite
  binary64 number; \<open>Undefined\<close> stands for a missing array element after
  destructuring. The sign of zero is not modelled.
\<close>

datatype jsnum = Undefined | NaN | Infinity bool | Num rat

text \<open>The integer nearest to a rational, the even one of two equally near.\<close>

definition round_even :: "rat \<Rightarrow> int" where
  "round_even q =
     (let f = \<lfloor>q\<rfloor>; r = q - of_int f
      in if r < 1 / 2 then f
         else if 1 / 2 < r then f + 1
         else if even f then f else f + 1)"

text \<open>
  Binary64 has 53 significant bits and exponents of the last bit from -1074 to 971. For
  a magnitude \<open>q\<close>, \<open>ulp_exponent q\<close> is the exponent of the last bit of the numbers
  around \<open>q\<close>, and \<open>finite64 q\<close> the nearest multiple of that bit, ties to even.
\<close>

definition ulp_exponent :: "rat \<Rightarrow> int" where
  "ulp_exponent q = Max (insert (- 1074) {e \<in> {- 1074 .. 971}. 2 powi (e + 52) \<le> q})"

definition finite64 :: "rat \<Rightarrow> rat" where
  "finite64 q = of_int (round_even (q / 2 powi ulp_exponent q)) * 2 powi ulp_exponent q"

text \<open>The Number value of a rational: round to nearest, overflow to infinity.\<close>

definition binary64 :: "rat \<Rightarrow> jsnum" where
  "binary64 q =
     (let v = finite64 \<bar>q\<bar>
      in if 2 powi 1024 \<le> v then Infinity (q < 0)
         else Num (if q < 0 then - v else v))"

definition is_digit :: "char \<Rightarrow> bool" where
  "is_digit c = (c \<in> set ''0123456789'')"

text \<open>
  The white space \<open>parseInt\<close> and \<open>parseFloat\<close> skip, among the code units below
  256: tab, line feed, vertical tab, form feed, carriage return, space and no-break space.
\<close>

definition is_ws :: "char \<Rightarrow> bool" where
  "is_ws c =
     (c \<in> set [CHR 0x09, CHR 0x0A, CHR 0x0B, CHR 0x0C, CHR 0x0D, CHR 0x20, CHR 0xA0])"

definition digit_val :: "char \<Rightarrow> nat" where
  "digit_val c = of_char c - of_char CHR ''0''"

text \<open>The value of a run of decimal digits, most significant first.\<close>

definition digits_val :: "string \<Rightarrow> nat" where
  "digits_val ds = foldl (\<lambda>acc c. 10 * acc + digit_val c) 0 ds"

text \<open>\<open>String.prototype.split\<close> with a one-character separator: never empty.\<close>

fun split :: "char \<Rightarrow> string \<Rightarrow> string list" where
  "split sep [] = [[]]"
| "split sep (c # cs) =
     (if c = sep then [] # split sep cs
      else (case split sep cs of
              [] \<Rightarrow> [[c]]
            | p # ps \<Rightarrow> (c # p) # ps))"

text \<open>An optional leading sign: whether it is a minus, and the rest.\<close>

fun strip_sign :: "string \<Rightarrow> bool \<times> string" where
  "strip_sign [] = (False, [])"
| "strip_sign (c # cs) =
     (if c = CHR ''-'' then (True, cs)
      else if c = CHR ''+'' then (False, cs)
      else (False, c # cs))"

text \<open>
  \<open>parseInt(x, 10)\<close>: leading white space is dropped, then an optional sign, then
  the longest run of decimal digits is read and what follows is ignored; no digit gives
  \<open>NaN\<close>, else the result is the Number value of the signed integer read.
\<close>

definition parseInt :: "string \<Rightarrow> jsnum" where
  "parseInt x =
     (let (neg, s) = strip_sign (dropWhile is_ws x);
          z = takeWhile is_digit s
      in if z = [] then NaN
         else binary64 (if neg then - of_nat (digits_val z) else of_nat (digits_val z)))"

text \<open>The exponent part of a decimal literal, when one is there (else 0).\<close>

definition exponent :: "string \<Rightarrow> int" where
  "exponent s =
     (case s of
        [] \<Rightarrow> 0
      | c # cs \<Rightarrow>
          if c = CHR ''e'' \<or> c = CHR ''E'' then
            (let (neg, r) = strip_sign cs; ds = takeWhile is_digit r
             in if ds = [] then 0
                else if neg then - int (digits_val ds) else int (digits_val ds))
          else 0)"

definition pow10 :: "int \<Rightarrow> rat" where
  "pow10 e = (if 0 \<le> e then 10 ^ nat e else 1 / 10 ^ nat (- e))"

text \<open>
  \<open>parseFloat(x)\<close>: leading white space is dropped, then the longest prefix that is
  a decimal literal is read (sign, \<open>Infinity\<close>, or digits with an optional fraction
  and exponent); no such prefix gives \<open>NaN\<close>, else the result is the Number value
  of the literal read.
\<close>

definition parseFloat :: "string \<Rightarrow> jsnum" where
  "parseFloat x =
     (let (neg, u) = strip_sign (dropWhile is_ws x)
      in if take 8 u = ''Infinity'' then Infinity neg
         else
           (let ip = takeWhile is_digit u;
                r1 = dropWhile is_digit u;
                (fp, r2) = (case r1 of
                              [] \<Rightarrow> ([], r1)
                            | c # r \<Rightarrow>
                                if c = CHR ''.''
                                then (takeWhile is_digit r, dropWhile is_digit r)
                                else ([], r1))
            in if ip = [] \<and> fp = [] then NaN
               else
                 (let m = of_nat (digits_val (ip @ fp)) * pow10 (exponent r2 - int (length fp))
                  in binary64 (if neg then - m else m))))"

text \<open>A non-empty run of decimal digits.\<close>

definition numeric :: "string \<Rightarrow> bool" where
  "numeric s = (s \<noteq> [] \<and> list_all is_digit s)"

text \<open>A string with no decimal digit in it.\<close>

definition digitless :: "string \<Rightarrow> bool" where
  "digitless s = list_all (\<lambda>c. \<not> is_digit c) s"

section \<open>Viewport spec strings\<close>

record viewport =
  width :: jsnum
  height :: jsnum
  deviceScaleFactor :: jsnum

text \<open>Array destructuring: the element at an index, or undefined.\<close>

definition nth_opt :: "'a list \<Rightarrow> nat \<Rightarrow> 'a option" where
  "nth_opt xs i = (if i < length xs then Some (xs ! i) else None)"

definition num_at :: "jsnum list \<Rightarrow> nat \<Rightarrow> jsnum" where
  "num_at xs i = (case nth_opt xs i of None \<Rightarrow> Undefined | Some v \<Rightarrow> v)"

text \<open>
  Lines 133 to 135 of the default command: the argument of \<open>page.setViewport\<close>. The
  first component of a split always exists.
\<close>

definition parse_viewport :: "string \<Rightarrow> viewport" where
  "parse_viewport viewport =
     (let parts = split CHR ''@'' viewport;
          size = hd parts;
          scale = nth_opt parts 1;
          dims = map parseInt (split CHR ''x'' size)
      in \<lparr> width = num_at dims 0,
           height = num_at dims 1,
           deviceScaleFactor = (case scale of None \<Rightarrow> Num 1 | Some s \<Rightarrow> parseFloat s) \<rparr>)"

section \<open>The command line, the outside world and the events of a run\<close>

text \<open>
  The parsed command line. An option that was not given is \<open>None\<close>
  (JavaScript's undefined). The viewports object is the list of its own enumerable
  properties, name and spec string, in the order \<open>for ... in\<close> visits them.
\<close>

record argv =
  serve :: "string option"
  url :: "string option"
  file' :: "string option"
  outDir :: string
  viewports :: "(string \<times> string) list option"
  debug :: bool
  puppeteerArgs :: "string option"
  puppeteerExecutablePath :: "string option"
  puppeteerUserDataDir :: "string option"
  puppeteerWaitUntil :: "string option"

datatype error = Error string

record launchArgs =
  args :: "string list"
  executablePath :: "string option"
  headless :: bool
  userDataDir :: "string option"

text \<open>
  Everything the command calls outside its own file: the pure library functions
  (\<open>path.join\<close>, \<open>path.resolve\<close>, \<open>url-join\<close>) and the outcome of every
  asynchronous call, \<open>Some e\<close> or \<open>Inl e\<close> when the call rejects with \<open>e\<close>. The
  calls inside the viewport loop are told the loop's iteration number, so that a world
  may fail one iteration and not another. \<open>listen\<close> is the outcome of the
  \<open>server.listen\<close> of \<open>makeServer\<close> (lines 18 to 30). \<open>writeFile\<close> is the outcome of
  the promise of a write, and, when it rejects, \<open>unhandledAfter\<close> is the number of
  awaited calls the handler still completes before the rejection is delivered.
\<close>

record world =
  cwd :: string
  dirname :: string
  path_join :: "string \<Rightarrow> string \<Rightarrow> string"
  path_resolve :: "string \<Rightarrow> string \<Rightarrow> string"
  urlJoin :: "string \<Rightarrow> string \<Rightarrow> string"
  getPort :: "error + nat"
  listen :: "string \<Rightarrow> nat \<Rightarrow> error option"
  launch :: "launchArgs \<Rightarrow> error option"
  newPage :: "error option"
  goto :: "string option \<Rightarrow> string option \<Rightarrow> error option"
  addScriptTag :: "string \<Rightarrow> error option"
  setViewport :: "nat \<Rightarrow> viewport \<Rightarrow> error option"
  evaluate :: "nat \<Rightarrow> error + string"
  mkdirp :: "nat \<Rightarrow> string \<Rightarrow> error option"
  writeFile :: "nat \<Rightarrow> string \<Rightarrow> string \<Rightarrow> error option"
  unhandledAfter :: "nat \<Rightarrow> nat"

text \<open>
  One event per call the command makes, in the order the calls are made. An awaited
  call has returned (or thrown) before the next event; \<open>WriteFile\<close> only starts the
  write, whose promise is awaited at \<open>AwaitAll\<close>, and \<open>BrowserClose\<close> only starts
  the close, which is not awaited. \<open>ConsoleError\<close> is an error printed
  to the error stream and \<open>ProcessExit\<close> the exit of the process with a code: by
  \<open>console.error\<close> and \<open>process.exit\<close> in the \<open>catch\<close>, or by the runtime when an
  error is not caught.
\<close>

datatype event =
    GetPort
  | Listen string nat
  | Launch launchArgs
  | NewPage
  | BringToFront
  | OnConsole
  | Goto "string option" "string option"
  | AddScriptTag string
  | SetViewport nat viewport
  | Evaluate nat
  | Mkdirp nat string
  | WriteFile nat string string
  | AwaitAll
  | BrowserClose
  | ServerClose
  | ConsoleError error
  | ProcessExit nat

text \<open>
  How a block ends: it returns a value, it throws an error to the enclosing block, or
  the process is killed by an error that no block of the handler can catch (an
  unhandled rejection, an \<open>error\<close> event with no listener).
\<close>

datatype 'a completion = Returned 'a | Threw error | Killed error

text \<open>The error a block ended with, if it did not return.\<close>

definition failure :: "'a completion \<Rightarrow> error option" where
  "failure c = (case c of Returned _ \<Rightarrow> None | Threw e \<Rightarrow> Some e | Killed e \<Rightarrow> Some e)"

definition is_killed :: "'a completion \<Rightarrow> bool" where
  "is_killed c = (case c of Killed _ \<Rightarrow> True | _ \<Rightarrow> False)"

text \<open>The events of a block and how it ended.\<close>

type_synonym outcome = "event list \<times> unit completion"

text \<open>\<open>await call; rest\<close>: a rejected call throws and the rest does not run.\<close>

definition await_then :: "event \<Rightarrow> error option \<Rightarrow> outcome \<Rightarrow> outcome" where
  "await_then ev r rest =
     (case r of
        Some e \<Rightarrow> ([ev], Threw e)
      | None \<Rightarrow> (ev # fst rest, snd rest))"

text \<open>
  \<open>try { body } finally { cleanup }\<close> with a cleanup that awaits nothing and does not
  throw. The cleanup runs when the body returns or throws, not when the process is
  killed.
\<close>

definition try_finally :: "outcome \<Rightarrow> event list \<Rightarrow> outcome" where
  "try_finally body cleanup =
     (case snd body of
        Killed e \<Rightarrow> body
      | _ \<Rightarrow> (fst body @ cleanup, snd body))"

text \<open>
  The rejected promises with no handler yet: for each, the number of awaited calls the
  handler still completes before the rejection is delivered, and the error. A rejection
  delivered while a call is awaited kills the process, as Node does since version 15;
  \<open>seen\<close> is the error of the one delivered during the call now awaited, \<open>tick\<close>
  the passing of a completed call. A runtime that only warns of an unhandled rejection
  behaves as a world in which no rejection is delivered before the writes are awaited.
\<close>

type_synonym pending = "(nat \<times> error) list"

definition seen :: "pending \<Rightarrow> error option" where
  "seen pend = (case filter (\<lambda>p. fst p = 0) pend of [] \<Rightarrow> None | p # _ \<Rightarrow> Some (snd p))"

definition tick :: "pending \<Rightarrow> pending" where
  "tick pend = map (\<lambda>p. (fst p - 1, snd p)) pend"

definition started :: "pending \<Rightarrow> nat \<Rightarrow> error option \<Rightarrow> pending" where
  "started pend n promise = (case promise of None \<Rightarrow> pend | Some e \<Rightarrow> pend @ [(n, e)])"

text \<open>A string option used as a condition: undefined and the empty string are falsy.\<close>

definition truthy :: "string option \<Rightarrow> string option" where
  "truthy v = (case v of None \<Rightarrow> None | Some s \<Rightarrow> if s = [] then None else Some s)"

text \<open>\<open>String(port)\<close> for a port number.\<close>

fun String_num :: "nat \<Rightarrow> string" where
  "String_num n =
     (if n < 10 then [''0123456789'' ! n]
      else String_num (n div 10) @ [''0123456789'' ! (n mod 10)])"

declare String_num.simps [simp del]

section \<open>The default command\<close>

text \<open>Lines 95 and 96: the URL the page is sent to.\<close>

definition resolve_url :: "world \<Rightarrow> argv \<Rightarrow> nat option \<Rightarrow> string option" where
  "resolve_url w a port =
     (let target = (case truthy (file' a) of
                      Some f \<Rightarrow> Some (''file://'' @ path_join w (cwd w) f)
                    | None \<Rightarrow> url a)
      in case truthy (serve a) of
           Some _ \<Rightarrow>
             Some (urlJoin w
                     (''http://localhost:'' @ (case port of None \<Rightarrow> ''null'' | Some p \<Rightarrow> String_num p))
                     (case truthy (url a) of None \<Rightarrow> ''/'' | Some u \<Rightarrow> u))
         | None \<Rightarrow> target)"

text \<open>Lines 99 to 104.\<close>

definition launch_args :: "argv \<Rightarrow> launchArgs" where
  "launch_args a =
     \<lparr> args = (case truthy (puppeteerArgs a) of None \<Rightarrow> [] | Some s \<Rightarrow> split CHR '' '' s),
       executablePath = puppeteerExecutablePath a,
       headless = (\<not> debug a),
       userDataDir = puppeteerUserDataDir a \<rparr>"

text \<open>Lines 142 and 145: the file one viewport is written to.\<close>

definition outputPagePath :: "world \<Rightarrow> argv \<Rightarrow> string \<Rightarrow> string" where
  "outputPagePath w a viewport =
     path_join w (path_resolve w (cwd w) (outDir a)) (''page-'' @ viewport @ ''.asketch.json'')"

text \<open>
  Lines 130 to 149, the loop over the viewports from iteration \<open>k\<close> on, with the
  rejected writes of the earlier iterations pending: its events, and how it ends, on
  return with the promises of the writes it started. Each write is started and not
  awaited (lines 146 and 147), so its promise has no handler while the loop runs.
\<close>

fun capture_loop ::
  "world \<Rightarrow> argv \<Rightarrow> nat \<Rightarrow> pending \<Rightarrow> (string \<times> string) list
     \<Rightarrow> event list \<times> error option list completion"
where
  "capture_loop w a k pend [] = ([], Returned [])"
| "capture_loop w a k pend ((viewportName, viewport) # rest) =
     (let vp = parse_viewport viewport in
      case seen pend of
        Some u \<Rightarrow> ([SetViewport k vp], Killed u)
      | None \<Rightarrow>
     (case setViewport w k vp of
        Some e \<Rightarrow> ([SetViewport k vp], Threw e)
      | None \<Rightarrow>
     (case seen (tick pend) of
        Some u \<Rightarrow> ([SetViewport k vp, Evaluate k], Killed u)
      | None \<Rightarrow>
     (case evaluate w k of
        Inl e \<Rightarrow> ([SetViewport k vp, Evaluate k], Threw e)
      | Inr asketchPageJSONString \<Rightarrow>
     (let outputPath = path_resolve w (cwd w) (outDir a) in
      case seen (tick (tick pend)) of
        Some u \<Rightarrow> ([SetViewport k vp, Evaluate k, Mkdirp k outputPath], Killed u)
      | None \<Rightarrow>
     (case mkdirp w k outputPath of
        Some e \<Rightarrow> ([SetViewport k vp, Evaluate k, Mkdirp k outputPath], Threw e)
      | None \<Rightarrow>
     (let path = outputPagePath w a viewport;
          promise = writeFile w k path asketchPageJSONString;
          pend' = started (tick (tick (tick pend))) (unhandledAfter w k) promise;
          (evs, r) = capture_loop w a (Suc k) pend' rest
      in ([SetViewport k vp, Evaluate k, Mkdirp k outputPath,
           WriteFile k path asketchPageJSONString] @ evs,
          case r of
            Returned promises \<Rightarrow> Returned (promise # promises)
          | Threw e \<Rightarrow> Threw e
          | Killed e \<Rightarrow> Killed e))))))))"

text \<open>
  \<open>Promise.all\<close> over the promises of the writes (line 151), attached in the same
  turn in which the loop ends, so that it handles every rejection not delivered by
  then: it rejects when one of the promises does, here with the error of the first
  rejected one in the order of the list.
\<close>

fun promise_all :: "error option list \<Rightarrow> error option" where
  "promise_all [] = None"
| "promise_all (None # ps) = promise_all ps"
| "promise_all (Some e # ps) = Some e"

definition default_viewports :: "(string \<times> string) list" where
  "default_viewports = [(''Desktop'', ''1024x768'')]"

text \<open>Lines 109 to 151: the body of the innermost \<open>try\<close>.\<close>

definition page_block :: "world \<Rightarrow> argv \<Rightarrow> string option \<Rightarrow> outcome" where
  "page_block w a symbolsUrl =
     await_then NewPage (newPage w)
       (let dbg = (if debug a then [BringToFront, OnConsole] else []);
            script = path_resolve w (dirname w) ''./page2layers.bundle.js'';
            vps = (case viewports a of None \<Rightarrow> default_viewports | Some v \<Rightarrow> v);
            rest =
              await_then (Goto symbolsUrl (puppeteerWaitUntil a))
                (goto w symbolsUrl (puppeteerWaitUntil a))
                (await_then (AddScriptTag script) (addScriptTag w script)
                   (case capture_loop w a 0 [] vps of
                      (evs, Returned promises) \<Rightarrow>
                        (evs @ [AwaitAll],
                         case promise_all promises of None \<Rightarrow> Returned () | Some e \<Rightarrow> Threw e)
                    | (evs, Threw e) \<Rightarrow> (evs, Threw e)
                    | (evs, Killed e) \<Rightarrow> (evs, Killed e)))
        in (dbg @ fst rest, snd rest))"

text \<open>
  Lines 95 to 156: the body of the middle \<open>try\<close>. Its \<open>finally\<close> calls
  \<open>browser.close()\<close> unless debugging, and does not await it (line 154).
\<close>

definition browser_block :: "world \<Rightarrow> argv \<Rightarrow> nat option \<Rightarrow> outcome" where
  "browser_block w a port =
     (let symbolsUrl = resolve_url w a port in
      await_then (Launch (launch_args a)) (launch w (launch_args a))
        (try_finally (page_block w a symbolsUrl)
           (if \<not> debug a then [BrowserClose] else [])))"

text \<open>
  Lines 18 to 30. The callback given to \<open>server.listen\<close> is called without an
  argument once the server listens, so the promise is never rejected: a listen that
  fails emits an \<open>error\<close> event that has no listener, which kills the process.
\<close>

definition makeServer :: "world \<Rightarrow> string \<Rightarrow> nat \<Rightarrow> outcome" where
  "makeServer w relativePath port =
     (case listen w relativePath port of
        Some e \<Rightarrow> ([Listen relativePath port], Killed e)
      | None \<Rightarrow> ([Listen relativePath port], Returned ()))"

text \<open>Lines 91 to 161: the body of the outer \<open>try\<close>.\<close>

definition server_block :: "world \<Rightarrow> argv \<Rightarrow> outcome" where
  "server_block w a =
     (case truthy (serve a) of
        None \<Rightarrow> try_finally (browser_block w a None) []
      | Some dir \<Rightarrow>
         (case getPort w of
            Inl e \<Rightarrow> ([GetPort], Threw e)
          | Inr port \<Rightarrow>
             (case makeServer w dir port of
                (evs, Returned _) \<Rightarrow>
                  (let r = try_finally (browser_block w a (Some port)) [ServerClose]
                   in (GetPort # evs @ fst r, snd r))
              | (evs, Threw e) \<Rightarrow> (GetPort # evs, Threw e)
              | (evs, Killed e) \<Rightarrow> (GetPort # evs, Killed e))))"

text \<open>
  Lines 90 to 165: the events of one run and the exit code of the process. An error
  thrown to the \<open>catch\<close> is printed by \<open>console.error\<close> and the process exits by
  \<open>process.exit(1)\<close>; an error that kills the process is printed by the runtime, which
  exits with code 1; a handler that returns leaves the exit code 0.
\<close>

definition handler :: "world \<Rightarrow> argv \<Rightarrow> event list \<times> nat" where
  "handler w a =
     (case server_block w a of
        (evs, Returned _) \<Rightarrow> (evs, 0)
      | (evs, Threw err) \<Rightarrow> (evs @ [ConsoleError err, ProcessExit 1], 1)
      | (evs, Killed err) \<Rightarrow> (evs @ [ConsoleError err, ProcessExit 1], 1))"

text \<open>
  The files on disk after the events of a run: a write that the world lets succeed
  puts its content at its path, writes taking effect in the order they were started.
  Nothing the command calls removes a file.
\<close>

type_synonym disk = "string \<rightharpoonup> string"

fun disk_step :: "world \<Rightarrow> disk \<Rightarrow> event \<Rightarrow> disk" where
  "disk_step w fs (WriteFile k path content) =
     (if writeFile w k path content = None then fs(path \<mapsto> content) else fs)"
| "disk_step w fs _ = fs"

definition disk_after :: "world \<Rightarrow> disk \<Rightarrow> event list \<Rightarrow> disk" where
  "disk_after w fs evs = foldl (disk_step w) fs evs"

section \<open>Reading a run\<close>

text \<open>The events of the viewport loop, and those of teardown and failure reporting.\<close>

definition is_capture :: "event \<Rightarrow> bool" where
  "is_capture e =
     (case e of
        SetViewport _ _ \<Rightarrow> True
      | Evaluate _ \<Rightarrow> True
      | Mkdirp _ _ \<Rightarrow> True
      | WriteFile _ _ _ \<Rightarrow> True
      | _ \<Rightarrow> False)"

definition is_teardown :: "event \<Rightarrow> bool" where
  "is_teardown e =
     (case e of
        BrowserClose \<Rightarrow> True
      | ServerClose \<Rightarrow> True
      | ConsoleError _ \<Rightarrow> True
      | ProcessExit _ \<Rightarrow> True
      | _ \<Rightarrow> False)"

text \<open>The viewports a run loops over (line 127).\<close>

definition run_viewports :: "argv \<Rightarrow> (string \<times> string) list" where
  "run_viewports a = (case viewports a of None \<Rightarrow> default_viewports | Some v \<Rightarrow> v)"

text \<open>The port \<open>getPort\<close> gave, when serving was asked for and it gave one.\<close>

definition assigned_port :: "world \<Rightarrow> argv \<Rightarrow> nat option" where
  "assigned_port w a =
     (case truthy (serve a) of
        None \<Rightarrow> None
      | Some dir \<Rightarrow> (case getPort w of Inl e \<Rightarrow> None | Inr p \<Rightarrow> Some p))"

text \<open>The server was acquired: serving was asked for and \<open>makeServer\<close> resolved.\<close>

definition server_started :: "world \<Rightarrow> argv \<Rightarrow> bool" where
  "server_started w a =
     (case truthy (serve a) of
        None \<Rightarrow> False
      | Some dir \<Rightarrow> (case getPort w of Inl e \<Rightarrow> False | Inr p \<Rightarrow> listen w dir p = None))"

text \<open>The browser was acquired: the run got as far as \<open>puppeteer.launch\<close>, which resolved.\<close>

definition browser_started :: "world \<Rightarrow> argv \<Rightarrow> bool" where
  "browser_started w a =
     ((truthy (serve a) = None \<or> server_started w a) \<and> launch w (launch_args a) = None)"

text \<open>The events up to the launch of the browser.\<close>

definition acquisition :: "world \<Rightarrow> argv \<Rightarrow> event list" where
  "acquisition w a =
     (case truthy (serve a) of
        None \<Rightarrow> [Launch (launch_args a)]
      | Some dir \<Rightarrow>
         (case getPort w of
            Inl e \<Rightarrow> [GetPort]
          | Inr p \<Rightarrow>
              if listen w dir p = None then [GetPort, Listen dir p, Launch (launch_args a)]
              else [GetPort, Listen dir p]))"

text \<open>The process was killed by an error that the handler could not catch.\<close>

definition killed :: "world \<Rightarrow> argv \<Rightarrow> bool" where
  "killed w a = is_killed (snd (server_block w a))"

text \<open>
  The releases made at the end of a run that is not killed: the browser unless
  debugging, then the server.
\<close>

definition releases :: "world \<Rightarrow> argv \<Rightarrow> event list" where
  "releases w a =
     (if killed w a then []
      else (if browser_started w a \<and> \<not> debug a then [BrowserClose] else []) @
           (if server_started w a then [ServerClose] else []))"

text \<open>The error of the run, if there is one, printed, and the exit with code 1.\<close>

definition report :: "world \<Rightarrow> argv \<Rightarrow> event list" where
  "report w a =
     (case failure (snd (server_block w a)) of
        None \<Rightarrow> []
      | Some e \<Rightarrow> [ConsoleError e, ProcessExit 1])"

text \<open>The events of the page up to the loop, and whether the loop is reached.\<close>

definition page_setup :: "world \<Rightarrow> argv \<Rightarrow> string option \<Rightarrow> event list" where
  "page_setup w a u =
     NewPage #
     (if newPage w = None then
        (if debug a then [BringToFront, OnConsole] else []) @
        Goto u (puppeteerWaitUntil a) #
        (if goto w u (puppeteerWaitUntil a) = None
         then [AddScriptTag (path_resolve w (dirname w) ''./page2layers.bundle.js'')]
         else [])
      else [])"

definition loop_reached :: "world \<Rightarrow> argv \<Rightarrow> string option \<Rightarrow> bool" where
  "loop_reached w a u =
     (newPage w = None \<and> goto w u (puppeteerWaitUntil a) = None \<and>
      addScriptTag w (path_resolve w (dirname w) ''./page2layers.bundle.js'') = None)"

text \<open>The events of the page itself.\<close>

definition is_page :: "event \<Rightarrow> bool" where
  "is_page e =
     (case e of
        NewPage \<Rightarrow> True
      | BringToFront \<Rightarrow> True
      | OnConsole \<Rightarrow> True
      | Goto _ _ \<Rightarrow> True
      | AddScriptTag _ \<Rightarrow> True
      | AwaitAll \<Rightarrow> True
      | _ \<Rightarrow> is_capture e)"

text \<open>The events of the \<open>catch\<close>: the error printed and the exit.\<close>

definition is_report :: "event \<Rightarrow> bool" where
  "is_report e = (case e of ConsoleError _ \<Rightarrow> True | ProcessExit _ \<Rightarrow> True | _ \<Rightarrow> False)"

text \<open>The error with which the world rejects the call of an event, if it does.\<close>

fun rejected :: "world \<Rightarrow> event \<Rightarrow> error option" where
  "rejected w GetPort = (case getPort w of Inl e \<Rightarrow> Some e | Inr _ \<Rightarrow> None)"
| "rejected w (Listen dir port) = listen w dir port"
| "rejected w (Launch la) = launch w la"
| "rejected w NewPage = newPage w"
| "rejected w (Goto u wu) = goto w u wu"
| "rejected w (AddScriptTag p) = addScriptTag w p"
| "rejected w (SetViewport k vp) = setViewport w k vp"
| "rejected w (Evaluate k) = (case evaluate w k of Inl e \<Rightarrow> Some e | Inr _ \<Rightarrow> None)"
| "rejected w (Mkdirp k p) = mkdirp w k p"
| "rejected w (WriteFile k p c) = writeFile w k p c"
| "rejected w _ = None"

text \<open>The events of a run before any release: acquisition, then the page.\<close>

definition work :: "world \<Rightarrow> argv \<Rightarrow> event list" where
  "work w a =
     acquisition w a @
     (if browser_started w a then fst (page_block w a (resolve_url w a (assigned_port w a)))
      else [])"

text \<open>
  Order in a run. \<open>preceded_by P Q\<close>: every event that satisfies \<open>Q\<close> has an event
  that satisfies \<open>P\<close> strictly before it. \<open>never_after P Q\<close>: no event that satisfies
  \<open>P\<close> comes after one that satisfies \<open>Q\<close>.
\<close>

definition preceded_by :: "(event \<Rightarrow> bool) \<Rightarrow> (event \<Rightarrow> bool) \<Rightarrow> event list \<Rightarrow> bool" where
  "preceded_by P Q tr = (\<forall>i < length tr. Q (tr ! i) \<longrightarrow> (\<exists>j < i. P (tr ! j)))"

definition never_after :: "(event \<Rightarrow> bool) \<Rightarrow> (event \<Rightarrow> bool) \<Rightarrow> event list \<Rightarrow> bool" where
  "never_after P Q tr = (\<forall>i < length tr. \<forall>j < i. Q (tr ! j) \<longrightarrow> \<not> P (tr ! i))"

text \<open>The call of an event returned normally.\<close>

definition done_ok :: "world \<Rightarrow> event \<Rightarrow> bool" where
  "done_ok w e = (rejected w e = None)"

text \<open>Kinds of events; those of the loop are told apart by their iteration.\<close>

definition is_listen :: "event \<Rightarrow> bool" where
  "is_listen e = (case e of Listen _ _ \<Rightarrow> True | _ \<Rightarrow> False)"

definition is_goto :: "event \<Rightarrow> bool" where
  "is_goto e = (case e of Goto _ _ \<Rightarrow> True | _ \<Rightarrow> False)"

definition is_inject :: "event \<Rightarrow> bool" where
  "is_inject e = (case e of AddScriptTag _ \<Rightarrow> True | _ \<Rightarrow> False)"

definition resize_of :: "nat \<Rightarrow> event \<Rightarrow> bool" where
  "resize_of k e = (case e of SetViewport i _ \<Rightarrow> i = k | _ \<Rightarrow> False)"

definition extract_of :: "nat \<Rightarrow> event \<Rightarrow> bool" where
  "extract_of k e = (case e of Evaluate i \<Rightarrow> i = k | _ \<Rightarrow> False)"

definition write_of :: "nat \<Rightarrow> event \<Rightarrow> bool" where
  "write_of k e = (case e of WriteFile i _ _ \<Rightarrow> i = k | _ \<Rightarrow> False)"

section \<open>A concrete world and command line\<close>

text \<open>
  A world in which every call succeeds, except that navigation rejects an undefined URL
  and the page rejects a viewport whose fields are not all numbers, as the browser does.
  The library functions agree with Node's on the arguments used below.
\<close>

definition demo_world :: world where
  "demo_world =
     \<lparr> cwd = ''/work'',
       dirname = ''/app/bin'',
       path_join = (\<lambda>p q. p @ ''/'' @ q),
       path_resolve = (\<lambda>p q. p @ ''/'' @ (if take 2 q = ''./'' then drop 2 q else q)),
       urlJoin = (\<lambda>p q. p @ q),
       getPort = Inr 8080,
       listen = (\<lambda>dir port. None),
       launch = (\<lambda>la. None),
       newPage = None,
       goto = (\<lambda>u wu. case u of None \<Rightarrow> Some (Error ''url: string value expected'') | Some _ \<Rightarrow> None),
       addScriptTag = (\<lambda>p. None),
       setViewport = (\<lambda>k vp. case (width vp, height vp, deviceScaleFactor vp) of
                               (Num _, Num _, Num _) \<Rightarrow> None
                             | _ \<Rightarrow> Some (Error ''Invalid parameters'')),
       evaluate = (\<lambda>k. Inr (''doc'' @ String_num k)),
       mkdirp = (\<lambda>k p. None),
       writeFile = (\<lambda>k p c. None),
       unhandledAfter = (\<lambda>k. 0) \<rparr>"

definition demo_argv :: argv where
  "demo_argv =
     \<lparr> serve = None, url = Some ''http://example.com/'', file' = None, outDir = ''out'',
       viewports = None, debug = False, puppeteerArgs = None,
       puppeteerExecutablePath = None, puppeteerUserDataDir = None,
       puppeteerWaitUntil = Some ''networkidle2'' \<rparr>"

text \<open>The same world with a navigation that always fails, and a served page.\<close>

definition nav_fail_world :: world where
  "nav_fail_world = demo_world\<lparr>goto := (\<lambda>u wu. Some (Error ''net::ERR_ABORTED''))\<rparr>"

definition served_argv :: argv where
  "served_argv = demo_argv\<lparr>serve := Some ''dist'', url := Some ''/index.html''\<rparr>"

text \<open>Two viewports of different names and the same spec string; a malformed spec.\<close>

definition twin_argv :: argv where
  "twin_argv = demo_argv\<lparr>viewports := Some [(''Phone'', ''320x568''), (''Handset'', ''320x568'')]\<rparr>"

definition bad_argv :: argv where
  "bad_argv = demo_argv\<lparr>viewports := Some [(''Desktop'', ''axb'')]\<rparr>"


text \<open>
  Two viewports of different spec strings, in a world where the first write is
  rejected and the rejection is delivered during the next awaited call.
\<close>

definition two_argv :: argv where
  "two_argv = demo_argv\<lparr>viewports := Some [(''Phone'', ''320x568''), (''Desktop'', ''1024x768'')]\<rparr>"

definition write_fail_world :: world where
  "write_fail_world =
     demo_world\<lparr>writeFile := (\<lambda>k p c. if k = 0 then Some (Error ''EACCES'') else None)\<rparr>"

section \<open>Binary64\<close>

lemma round_even_of_int: "round_even (of_int k) = k"
  by (simp add: round_even_def)


lemma ulp_exponent_low:
  "ulp_exponent q = - 1074 \<or> 2 powi (ulp_exponent q + 52) \<le> q"
proof -
  let ?S = "insert (- 1074) {e \<in> {- 1074 .. 971}. 2 powi (e + 52) \<le> q}"
  have f: "finite ?S" by (rule finite_subset[of _ "insert (- 1074) {- 1074 .. 971}"]) auto
  have "Max ?S \<in> ?S" by (rule Max_in[OF f]) simp
  then show ?thesis unfolding ulp_exponent_def by auto
qed


lemma finite64_exact_nat:
  assumes "n < 2 ^ 53"
  shows "finite64 (of_nat n) = of_nat n"
proof -
  let ?q = "of_nat n :: rat"
  let ?e = "ulp_exponent ?q"
  have lt: "?q < 2 powi 53" using assms
    by (metis of_nat_less_iff of_nat_numeral of_nat_power power_int_numeral)
  have e0: "?e \<le> 0"
  proof (rule ccontr)
    assume "\<not> ?e \<le> 0"
    then have pos: "1 \<le> ?e" by simp
    with ulp_exponent_low[of ?q] have "(2::rat) powi (?e + 52) \<le> ?q" by simp
    moreover have "(2::rat) powi 53 \<le> 2 powi (?e + 52)"
      using pos by (intro power_int_increasing) simp_all
    ultimately show False using lt by simp
  qed
  define k where "k = nat (- ?e)"
  have pk: "(2::rat) powi ?e = 1 / 2 ^ k"
    using e0 by (simp add: k_def power_int_def field_simps)
  have "?q / 2 powi ?e = of_int (int n * 2 ^ k)"
    by (simp add: pk)
  then have r: "round_even (?q / 2 powi ?e) = int n * 2 ^ k"
    using round_even_of_int by metis
  show ?thesis unfolding finite64_def r by (simp add: pk)
qed

lemma below_overflow:
  assumes "n < 2 ^ 53"
  shows "\<not> (2::rat) powi 1024 \<le> of_nat n"
proof -
  have "(of_nat n :: rat) < 2 powi 53" using assms
    by (metis of_nat_less_iff of_nat_numeral of_nat_power power_int_numeral)
  moreover have "(2::rat) powi 53 \<le> 2 powi 1024" by (intro power_int_increasing) simp_all
  ultimately show ?thesis by simp
qed

lemma binary64_exact_nat:
  assumes "n < 2 ^ 53"
  shows "binary64 (of_nat n) = Num (of_nat n)"
  using below_overflow[OF assms]
  by (simp add: binary64_def Let_def finite64_exact_nat[OF assms])

lemma binary64_exact_neg:
  assumes "n < 2 ^ 53"
  shows "binary64 (- of_nat n) = Num (- of_nat n)"
  using below_overflow[OF assms]
  by (simp add: binary64_def Let_def finite64_exact_nat[OF assms])



lemma binary64_not_undefined: "binary64 q \<noteq> Undefined \<and> binary64 q \<noteq> NaN"
  by (simp add: binary64_def Let_def)

section \<open>Splitting and parsing\<close>

lemma split_not_Nil: "split sep s \<noteq> []"
  by (induction s) (auto split: list.splits)

lemma split_no_sep: "sep \<notin> set s \<Longrightarrow> split sep s = [s]"
  by (induction s) auto

lemma split_append_sep: "sep \<notin> set p \<Longrightarrow> split sep (p @ sep # q) = p # split sep q"
  by (induction p) auto

lemma digit_not_special:
  "is_digit c \<Longrightarrow> \<not> is_ws c \<and> c \<noteq> CHR ''-'' \<and> c \<noteq> CHR ''+'' \<and> c \<noteq> CHR ''.''
     \<and> c \<noteq> CHR ''x'' \<and> c \<noteq> CHR ''@'' \<and> c \<noteq> CHR ''I''"
  by (auto simp: is_digit_def is_ws_def)

lemma numeric_no_sep: "numeric s \<Longrightarrow> CHR ''x'' \<notin> set s \<and> CHR ''@'' \<notin> set s"
  using digit_not_special by (auto simp: numeric_def list_all_iff)

text \<open>A run of digits, then something that does not start with a digit.\<close>

lemma takeWhile_digits_junk:
  assumes "numeric W" "junk = [] \<or> \<not> is_digit (hd junk)"
  shows "takeWhile is_digit (W @ junk) = W"
proof -
  have "takeWhile is_digit junk = []" using assms(2) by (cases junk) auto
  with assms(1) show ?thesis by (simp add: numeric_def list_all_iff takeWhile_append2)
qed

lemma parseInt_leading:
  assumes "numeric W" "junk = [] \<or> \<not> is_digit (hd junk)"
  shows "parseInt (W @ junk) = binary64 (of_nat (digits_val W))"
proof -
  from assms obtain c cs where W: "W = c # cs" by (cases W) (auto simp: numeric_def)
  with assms have c: "is_digit c" by (simp add: numeric_def)
  have dw: "dropWhile is_ws (W @ junk) = W @ junk" using W c digit_not_special by simp
  have ss: "strip_sign (W @ junk) = (False, W @ junk)" using W c digit_not_special by simp
  have ne: "W \<noteq> []" using W by simp
  show ?thesis using ne
    by (simp add: parseInt_def dw ss takeWhile_digits_junk[OF assms])
qed


lemma parseInt_numeric:
  assumes "numeric W"
  shows "parseInt W = binary64 (of_nat (digits_val W))"
  using parseInt_leading[OF assms, of "[]"] by simp





text \<open>The parse of a spec string in terms of its components.\<close>

lemma parse_components:
  assumes "CHR ''x'' \<notin> set W" "CHR ''@'' \<notin> set W" "CHR ''x'' \<notin> set H" "CHR ''@'' \<notin> set H"
  shows "parse_viewport (W @ ''x'' @ H) =
     \<lparr> width = parseInt W, height = parseInt H, deviceScaleFactor = Num 1 \<rparr>"
proof -
  have "CHR ''@'' \<notin> set (W @ CHR ''x'' # H)" using assms by auto
  then have s1: "split CHR ''@'' (W @ CHR ''x'' # H) = [W @ CHR ''x'' # H]" by (rule split_no_sep)
  have s2: "split CHR ''x'' (W @ CHR ''x'' # H) = [W, H]"
    using assms split_append_sep[of "CHR ''x''" W H] split_no_sep[of "CHR ''x''" H] by simp
  show ?thesis
    by (simp add: parse_viewport_def Let_def s1 s2 nth_opt_def num_at_def)
qed


lemma parse_WxH:
  assumes "numeric W" "numeric H"
  shows "parse_viewport (W @ ''x'' @ H) =
     \<lparr> width = binary64 (of_nat (digits_val W)), height = binary64 (of_nat (digits_val H)),
       deviceScaleFactor = Num 1 \<rparr>"
  using parse_components[of W H] numeric_no_sep[OF assms(1)] numeric_no_sep[OF assms(2)]
  by (simp add: parseInt_numeric assms)


lemma scale_of_bare_at:
  assumes "CHR ''@'' \<notin> set s"
  shows "deviceScaleFactor (parse_viewport (s @ ''@'')) = NaN"
proof -
  have s1: "split CHR ''@'' (s @ [CHR ''@'']) = [s, []]"
    using split_append_sep[OF assms, of "[]"] by simp
  have pf: "parseFloat [] = NaN" by (simp add: parseFloat_def)
  show ?thesis by (simp add: parse_viewport_def Let_def s1 nth_opt_def pf)
qed

lemma scale_without_at:
  assumes "CHR ''@'' \<notin> set s"
  shows "deviceScaleFactor (parse_viewport s) = Num 1"
  by (simp add: parse_viewport_def Let_def split_no_sep[OF assms] nth_opt_def)

lemma capture_loop_first:
  "\<exists>evs. fst (capture_loop w a k pend ((name, spec) # rest))
     = SetViewport k (parse_viewport spec) # evs"
  by (auto simp: Let_def split: option.splits sum.splits prod.splits completion.splits)

section \<open>The shape of a run\<close>

lemmas block_defs =
  server_block_def makeServer_def browser_block_def await_then_def try_finally_def Let_def

lemma server_block_status:
  "snd (server_block w a) =
     (case truthy (serve a) of
        None \<Rightarrow>
          (case launch w (launch_args a) of
             Some e \<Rightarrow> Threw e
           | None \<Rightarrow> snd (page_block w a (resolve_url w a (assigned_port w a))))
      | Some dir \<Rightarrow>
         (case getPort w of
            Inl e \<Rightarrow> Threw e
          | Inr p \<Rightarrow>
             (case listen w dir p of
                Some e \<Rightarrow> Killed e
              | None \<Rightarrow>
                 (case launch w (launch_args a) of
                    Some e \<Rightarrow> Threw e
                  | None \<Rightarrow> snd (page_block w a (resolve_url w a (assigned_port w a)))))))"
  by (auto simp: block_defs assigned_port_def
       split: option.splits sum.splits prod.splits completion.splits)

lemma server_block_trace:
  "fst (server_block w a) =
     acquisition w a @
     (if browser_started w a then fst (page_block w a (resolve_url w a (assigned_port w a)))
      else []) @
     releases w a"
proof -
  have k: "killed w a = is_killed (snd (server_block w a))" by (simp add: killed_def)
  show ?thesis
    unfolding releases_def k server_block_status
    by (auto simp: block_defs acquisition_def browser_started_def server_started_def
         assigned_port_def is_killed_def
         split: option.splits sum.splits prod.splits completion.splits)
qed

lemma handler_trace:
  "fst (handler w a) =
     acquisition w a @
     (if browser_started w a then fst (page_block w a (resolve_url w a (assigned_port w a)))
      else []) @
     releases w a @ report w a"
proof -
  have "fst (handler w a) = fst (server_block w a) @ report w a"
    by (auto simp: handler_def report_def failure_def split: prod.splits completion.splits)
  then show ?thesis by (simp add: server_block_trace)
qed

lemma handler_work: "fst (handler w a) = work w a @ releases w a @ report w a"
  by (simp add: handler_trace work_def)

lemma handler_status:
  "snd (handler w a) = (case failure (snd (server_block w a)) of None \<Rightarrow> 0 | Some e \<Rightarrow> 1)"
  by (auto simp: handler_def failure_def split: prod.splits completion.splits)

lemma capture_loop_events:
  "capture_loop w a k pend vps = (evs, r) \<Longrightarrow> \<forall>e \<in> set evs. is_capture e"
proof (induction vps arbitrary: k pend evs r)
  case Nil
  then show ?case by simp
next
  case (Cons v vps)
  obtain n s where v: "v = (n, s)" by (cases v)
  show ?case
  proof (cases "capture_loop w a (Suc k)
      (started (tick (tick (tick pend))) (unhandledAfter w k)
         (writeFile w k (outputPagePath w a s) (projr (evaluate w k)))) vps")
    case (Pair evs' r')
    from Cons.IH[OF Pair] have ih: "\<forall>e \<in> set evs'. is_capture e" .
    from Cons.prems v Pair ih show ?thesis
      by (auto simp: Let_def is_capture_def split: option.splits sum.splits completion.splits)
  qed
qed

lemma page_block_trace:
  "fst (page_block w a u) =
     page_setup w a u @
     (if loop_reached w a u then
        fst (capture_loop w a 0 [] (run_viewports a)) @
        (case snd (capture_loop w a 0 [] (run_viewports a)) of
           Returned ps \<Rightarrow> [AwaitAll]
         | _ \<Rightarrow> [])
      else [])"
  by (auto simp: page_block_def await_then_def page_setup_def loop_reached_def run_viewports_def
       Let_def split: option.splits sum.splits prod.splits completion.splits)

lemma page_block_status:
  "snd (page_block w a u) =
     (case newPage w of
        Some e \<Rightarrow> Threw e
      | None \<Rightarrow>
         (case goto w u (puppeteerWaitUntil a) of
            Some e \<Rightarrow> Threw e
          | None \<Rightarrow>
             (case addScriptTag w (path_resolve w (dirname w) ''./page2layers.bundle.js'') of
                Some e \<Rightarrow> Threw e
              | None \<Rightarrow>
                 (case snd (capture_loop w a 0 [] (run_viewports a)) of
                    Returned ps \<Rightarrow>
                      (case promise_all ps of None \<Rightarrow> Returned () | Some e \<Rightarrow> Threw e)
                  | Threw e \<Rightarrow> Threw e
                  | Killed e \<Rightarrow> Killed e))))"
  by (auto simp: page_block_def await_then_def run_viewports_def Let_def
       split: option.splits sum.splits prod.splits completion.splits)

lemma page_setup_is_page: "e \<in> set (page_setup w a u) \<Longrightarrow> is_page e"
  by (auto simp: page_setup_def is_page_def split: if_splits)

lemma page_block_is_page:
  assumes "e \<in> set (fst (page_block w a u))"
  shows "is_page e"
proof -
  obtain evs r where l: "capture_loop w a 0 [] (run_viewports a) = (evs, r)"
    by (cases "capture_loop w a 0 [] (run_viewports a)")
  from capture_loop_events[OF l] have c: "\<forall>e \<in> set evs. is_capture e" .
  have cp: "\<And>x. is_capture x \<Longrightarrow> is_page x"
    by (auto simp: is_page_def is_capture_def split: event.splits)
  from assms show ?thesis unfolding page_block_trace l
    using c cp page_setup_is_page[of e w a u]
    by (auto simp: is_page_def split: if_splits completion.splits)
qed

lemma is_page_not_teardown: "is_page e \<Longrightarrow> \<not> is_teardown e"
  by (auto simp: is_page_def is_capture_def is_teardown_def split: event.splits)

lemma is_page_not_other:
  "is_page e \<Longrightarrow>
     e \<noteq> BrowserClose \<and> e \<noteq> ServerClose \<and> e \<noteq> Launch la \<and> e \<noteq> GetPort \<and> e \<noteq> Listen d p"
  by (auto simp: is_page_def is_capture_def)

lemma acquisition_not_teardown: "e \<in> set (acquisition w a) \<Longrightarrow> \<not> is_teardown e"
  by (auto simp: acquisition_def is_teardown_def split: option.splits sum.splits if_splits)

lemma work_not_teardown: "e \<in> set (work w a) \<Longrightarrow> \<not> is_teardown e"
  using acquisition_not_teardown page_block_is_page is_page_not_teardown
  by (auto simp: work_def split: if_splits)

lemma report_is_teardown: "is_report e \<Longrightarrow> is_teardown e"
  by (auto simp: is_report_def is_teardown_def split: event.splits)

lemma no_close_in_acquisition: "BrowserClose \<notin> set (acquisition w a)"
  by (auto simp: acquisition_def split: option.splits sum.splits)

lemma no_close_in_page: "BrowserClose \<notin> set (fst (page_block w a u))"
  using page_block_is_page[of BrowserClose w a u] is_page_not_other[of BrowserClose] by auto

lemma launch_in_acquisition: "Launch la \<in> set (acquisition w a) \<Longrightarrow> la = launch_args a"
  by (auto simp: acquisition_def split: option.splits sum.splits if_splits)

lemma launch_in_handler: "Launch la \<in> set (fst (handler w a)) \<Longrightarrow> la = launch_args a"
  using launch_in_acquisition[of la w a] is_page_not_other[of "Launch la" la]
    page_block_is_page[of "Launch la" w a]
  by (auto simp: handler_trace releases_def report_def split: if_splits option.splits)

lemma goto_in_page:
  assumes "Goto u' wu \<in> set (fst (page_block w a u))"
  shows "u' = u \<and> wu = puppeteerWaitUntil a"
proof -
  obtain evs r where l: "capture_loop w a 0 [] (run_viewports a) = (evs, r)"
    by (cases "capture_loop w a 0 [] (run_viewports a)")
  from capture_loop_events[OF l] have "Goto u' wu \<notin> set evs" by (auto simp: is_capture_def)
  with assms show ?thesis unfolding page_block_trace l
    by (auto simp: page_setup_def split: if_splits completion.splits)
qed

lemma goto_in_handler:
  "Goto u wu \<in> set (fst (handler w a)) \<Longrightarrow> u = resolve_url w a (assigned_port w a)"
  using goto_in_page[of u wu w a "resolve_url w a (assigned_port w a)"]
  by (auto simp: handler_trace acquisition_def releases_def report_def
       split: if_splits option.splits sum.splits)

lemma goto_reached:
  "browser_started w a \<Longrightarrow> newPage w = None \<Longrightarrow>
     Goto (resolve_url w a (assigned_port w a)) (puppeteerWaitUntil a) \<in> set (fst (handler w a))"
  by (simp add: handler_trace page_block_trace page_setup_def)

text \<open>One iteration of the loop that gets as far as its write.\<close>

lemma capture_loop_Cons_cases:
  assumes "capture_loop w a k pend ((n, s) # vps) = (evs, r)"
  obtains
    (stopped) "set evs \<subseteq> {SetViewport k (parse_viewport s), Evaluate k,
                           Mkdirp k (path_resolve w (cwd w) (outDir a))}"
      "\<forall>ps. r \<noteq> Returned ps"
  | (written) doc evs' r' where
      "setViewport w k (parse_viewport s) = None"
      "evaluate w k = Inr doc"
      "mkdirp w k (path_resolve w (cwd w) (outDir a)) = None"
      "capture_loop w a (Suc k)
         (started (tick (tick (tick pend))) (unhandledAfter w k)
            (writeFile w k (outputPagePath w a s) doc)) vps = (evs', r')"
      "evs = [SetViewport k (parse_viewport s), Evaluate k,
              Mkdirp k (path_resolve w (cwd w) (outDir a)),
              WriteFile k (outputPagePath w a s) doc] @ evs'"
      "r = (case r' of
              Returned ps \<Rightarrow> Returned (writeFile w k (outputPagePath w a s) doc # ps)
            | Threw e \<Rightarrow> Threw e
            | Killed e \<Rightarrow> Killed e)"
  using assms
  by (auto simp: Let_def split: option.splits sum.splits prod.splits)

lemma capture_loop_Cons_ok:
  assumes "capture_loop w a k pend ((n, s) # vps) = (evs, Returned ps)"
  obtains doc evs' ps' where
    "setViewport w k (parse_viewport s) = None"
    "evaluate w k = Inr doc"
    "mkdirp w k (path_resolve w (cwd w) (outDir a)) = None"
    "capture_loop w a (Suc k)
       (started (tick (tick (tick pend))) (unhandledAfter w k)
          (writeFile w k (outputPagePath w a s) doc)) vps = (evs', Returned ps')"
    "evs = [SetViewport k (parse_viewport s), Evaluate k,
            Mkdirp k (path_resolve w (cwd w) (outDir a)),
            WriteFile k (outputPagePath w a s) doc] @ evs'"
    "ps = writeFile w k (outputPagePath w a s) doc # ps'"
  using assms
  by (auto simp: Let_def split: option.splits sum.splits prod.splits completion.splits)

lemma capture_loop_writes:
  "capture_loop w a k pend vps = (evs, r) \<Longrightarrow> WriteFile i p c \<in> set evs \<Longrightarrow>
     k \<le> i \<and> i - k < length vps \<and> p = outputPagePath w a (snd (vps ! (i - k)))
     \<and> evaluate w i = Inr c"
proof (induction vps arbitrary: k pend evs r)
  case Nil
  then show ?case by simp
next
  case (Cons v vps)
  obtain n s where v: "v = (n, s)" by (cases v)
  from Cons.prems(1)[unfolded v] show ?case
  proof (cases rule: capture_loop_Cons_cases)
    case stopped
    with Cons.prems(2) show ?thesis by auto
  next
    case (written doc evs' r')
    from Cons.prems(2) written(5)
    have "(i = k \<and> p = outputPagePath w a s \<and> c = doc) \<or> WriteFile i p c \<in> set evs'" by auto
    then show ?thesis
    proof
      assume "i = k \<and> p = outputPagePath w a s \<and> c = doc"
      then show ?thesis using v written(2) by simp
    next
      assume "WriteFile i p c \<in> set evs'"
      from Cons.IH[OF written(4) this]
      have ih: "Suc k \<le> i" "i - Suc k < length vps"
        "p = outputPagePath w a (snd (vps ! (i - Suc k)))" "evaluate w i = Inr c" by auto
      from ih(1) have "i - k = Suc (i - Suc k)" by simp
      with ih show ?thesis by simp
    qed
  qed
qed


lemma write_in_handler:
  assumes "WriteFile i p c \<in> set (fst (handler w a))"
  shows "i < length (run_viewports a) \<and> p = outputPagePath w a (snd (run_viewports a ! i))
       \<and> evaluate w i = Inr c"
proof -
  obtain evs r where l: "capture_loop w a 0 [] (run_viewports a) = (evs, r)"
    by (cases "capture_loop w a 0 [] (run_viewports a)")
  from assms have "WriteFile i p c \<in> set evs"
    unfolding handler_trace page_block_trace l
    by (auto simp: acquisition_def page_setup_def releases_def report_def
        split: if_splits option.splits sum.splits completion.splits)
  from capture_loop_writes[OF l this] show ?thesis by simp
qed


lemma no_capture_acquisition: "e \<in> set (acquisition w a) \<Longrightarrow> \<not> is_capture e"
  by (auto simp: acquisition_def is_capture_def split: option.splits sum.splits if_splits)

lemma no_capture_setup: "e \<in> set (page_setup w a u) \<Longrightarrow> \<not> is_capture e"
  by (auto simp: page_setup_def is_capture_def split: if_splits)

lemma no_capture_releases: "e \<in> set (releases w a @ report w a) \<Longrightarrow> \<not> is_capture e"
  by (auto simp: releases_def report_def is_capture_def split: option.splits if_splits)



section \<open>Rejected calls and the exit code\<close>

lemma promise_all_None: "promise_all ps = None \<longleftrightarrow> (\<forall>p \<in> set ps. p = None)"
  by (induction ps rule: promise_all.induct) auto

lemma seen_in: "seen pend = Some u \<Longrightarrow> u \<in> snd ` set pend"
proof -
  assume s: "seen pend = Some u"
  then obtain p ps where f: "filter (\<lambda>p. fst p = 0) pend = p # ps" "u = snd p"
    by (auto simp: seen_def split: list.splits)
  then have "p \<in> set (filter (\<lambda>p. fst p = 0) pend)" by simp
  with f(2) show ?thesis by auto
qed

lemma tick_errors: "snd ` set (tick pend) = snd ` set pend"
  by (force simp: tick_def)

lemma started_errors:
  "snd ` set (started pend n promise) = snd ` set pend \<union> (case promise of None \<Rightarrow> {} | Some e \<Rightarrow> {e})"
  by (auto simp: started_def split: option.splits)

text \<open>
  The error a loop ends with is the error of a rejected call of the loop, or of a
  rejected write that was pending when it began.
\<close>

lemma capture_loop_rejected:
  "capture_loop w a k pend vps = (evs, r) \<Longrightarrow>
     (case r of
        Returned ps \<Rightarrow>
          (promise_all ps = None \<longrightarrow> (\<forall>ev \<in> set evs. rejected w ev = None))
          \<and> (\<forall>e. promise_all ps = Some e \<longrightarrow> (\<exists>ev \<in> set evs. rejected w ev = Some e))
      | Threw e \<Rightarrow> (\<exists>ev \<in> set evs. rejected w ev = Some e)
      | Killed e \<Rightarrow> e \<in> snd ` set pend \<or> (\<exists>ev \<in> set evs. rejected w ev = Some e))"
proof (induction vps arbitrary: k pend evs r)
  case Nil
  then show ?case by auto
next
  case (Cons v vps)
  obtain n s where v: "v = (n, s)" by (cases v)
  let ?vp = "parse_viewport s"
  let ?dir = "path_resolve w (cwd w) (outDir a)"
  show ?case
  proof (cases "seen pend")
    case (Some u)
    then have u: "u \<in> snd ` set pend" by (rule seen_in)
    from Cons.prems v Some have "r = Killed u" by (auto simp: Let_def)
    with u show ?thesis by simp
  next
    case s0: None
    show ?thesis
    proof (cases "setViewport w k ?vp")
      case (Some e)
      with Cons.prems v s0 show ?thesis by (auto simp: Let_def)
    next
      case sv: None
      show ?thesis
      proof (cases "seen (tick pend)")
        case (Some u)
        then have u: "u \<in> snd ` set pend"
          using seen_in[of "tick pend" u] by (simp add: tick_errors)
        from Cons.prems v s0 sv Some have "r = Killed u" by (auto simp: Let_def)
        with u show ?thesis by simp
      next
        case s1: None
        show ?thesis
        proof (cases "evaluate w k")
          case (Inl e)
          with Cons.prems v s0 sv s1 show ?thesis by (auto simp: Let_def)
        next
          case ev: (Inr doc)
          show ?thesis
          proof (cases "seen (tick (tick pend))")
            case (Some u)
            then have u: "u \<in> snd ` set pend"
              using seen_in[of "tick (tick pend)" u] by (simp add: tick_errors)
            from Cons.prems v s0 sv s1 ev Some have "r = Killed u" by (auto simp: Let_def)
            with u show ?thesis by simp
          next
            case s2: None
            show ?thesis
            proof (cases "mkdirp w k ?dir")
              case (Some e)
              with Cons.prems v s0 sv s1 ev s2 show ?thesis by (auto simp: Let_def)
            next
              case mk: None
              let ?pr = "writeFile w k (outputPagePath w a s) doc"
              let ?pend = "started (tick (tick (tick pend))) (unhandledAfter w k) ?pr"
              obtain evs' r' where rec: "capture_loop w a (Suc k) ?pend vps = (evs', r')"
                by (cases "capture_loop w a (Suc k) ?pend vps")
              note ih = Cons.IH[OF rec]
              have pe: "snd ` set ?pend = snd ` set pend \<union> (case ?pr of None \<Rightarrow> {} | Some e \<Rightarrow> {e})"
                by (simp add: started_errors tick_errors)
              from Cons.prems v s0 sv s1 ev s2 mk rec
              have evs: "evs = [SetViewport k ?vp, Evaluate k, Mkdirp k ?dir,
                                WriteFile k (outputPagePath w a s) doc] @ evs'"
                and r: "r = (case r' of
                               Returned ps \<Rightarrow> Returned (?pr # ps)
                             | Threw e \<Rightarrow> Threw e
                             | Killed e \<Rightarrow> Killed e)"
                by (auto simp: Let_def)
              show ?thesis
              proof (cases r')
                case (Returned ps)
                with ih r evs sv ev mk show ?thesis by (cases ?pr) auto
              next
                case (Threw e)
                with ih r evs show ?thesis by auto
              next
                case (Killed e)
                with ih r evs pe show ?thesis by (cases ?pr) auto
              qed
            qed
          qed
        qed
      qed
    qed
  qed
qed

lemma page_block_rejected:
  "(case failure (snd (page_block w a u)) of
      None \<Rightarrow> (\<forall>ev \<in> set (fst (page_block w a u)). rejected w ev = None)
    | Some e \<Rightarrow> (\<exists>ev \<in> set (fst (page_block w a u)). rejected w ev = Some e))"
proof -
  obtain evs r where l: "capture_loop w a 0 [] (run_viewports a) = (evs, r)"
    by (cases "capture_loop w a 0 [] (run_viewports a)")
  note c = capture_loop_rejected[OF l]
  show ?thesis unfolding page_block_trace page_block_status l
    using c
    by (cases r; cases "newPage w"; cases "goto w u (puppeteerWaitUntil a)";
        cases "addScriptTag w (path_resolve w (dirname w) ''./page2layers.bundle.js'')")
       (auto simp: page_setup_def loop_reached_def failure_def split: option.splits)
qed

lemma work_rejected:
  "(case failure (snd (server_block w a)) of
      None \<Rightarrow> (\<forall>ev \<in> set (work w a). rejected w ev = None)
    | Some e \<Rightarrow> (\<exists>ev \<in> set (work w a). rejected w ev = Some e))"
  using page_block_rejected[of w a "resolve_url w a (assigned_port w a)"]
  unfolding server_block_status work_def
  by (auto simp: acquisition_def browser_started_def server_started_def failure_def
       split: option.splits sum.splits)

lemma releases_not_rejected: "ev \<in> set (releases w a @ report w a) \<Longrightarrow> rejected w ev = None"
  by (auto simp: releases_def report_def split: if_splits option.splits)

lemma status_iff_no_rejection:
  "snd (handler w a) = 0 \<longleftrightarrow> (\<forall>ev \<in> set (fst (handler w a)). rejected w ev = None)"
proof (cases "failure (snd (server_block w a))")
  case None
  with work_rejected[of w a] have "\<forall>ev \<in> set (work w a). rejected w ev = None" by simp
  with releases_not_rejected[of _ w a]
  have "\<forall>ev \<in> set (fst (handler w a)). rejected w ev = None"
    unfolding handler_work by auto
  with None show ?thesis by (simp add: handler_status)
next
  case (Some e)
  with work_rejected[of w a] have "\<exists>ev \<in> set (work w a). rejected w ev = Some e" by simp
  then have "\<exists>ev \<in> set (fst (handler w a)). rejected w ev \<noteq> None"
    unfolding handler_work by auto
  with Some show ?thesis by (auto simp: handler_status)
qed

lemma loop_empty_status:
  assumes "viewports a = Some []"
  shows "snd (handler w a) = 0 \<longleftrightarrow>
           browser_started w a \<and> loop_reached w a (resolve_url w a (assigned_port w a))"
  using assms
  by (auto simp: handler_status server_block_status page_block_status
       run_viewports_def browser_started_def server_started_def loop_reached_def
       assigned_port_def failure_def
       split: option.splits sum.splits)

lemma status_zero:
  "snd (handler w a) = 0 \<longleftrightarrow>
     browser_started w a \<and> loop_reached w a (resolve_url w a (assigned_port w a))
     \<and> (\<exists>ps. snd (capture_loop w a 0 [] (run_viewports a)) = Returned ps \<and> promise_all ps = None)"
  by (auto simp: handler_status server_block_status page_block_status
       browser_started_def server_started_def loop_reached_def assigned_port_def failure_def
       split: option.splits sum.splits completion.splits)

section \<open>The disk\<close>

lemma disk_after_Nil: "disk_after w fs [] = fs"
  by (simp add: disk_after_def)

lemma disk_after_Cons: "disk_after w fs (e # es) = disk_after w (disk_step w fs e) es"
  by (simp add: disk_after_def)

lemma disk_after_append: "disk_after w fs (xs @ ys) = disk_after w (disk_after w fs xs) ys"
  by (simp add: disk_after_def)

lemma disk_after_no_write: "\<forall>e \<in> set evs. \<not> is_capture e \<Longrightarrow> disk_after w fs evs = fs"
proof (induction evs arbitrary: fs)
  case Nil
  then show ?case by (simp add: disk_after_def)
next
  case (Cons e evs)
  then have "disk_step w fs e = fs" by (cases e) (auto simp: is_capture_def)
  with Cons show ?case by (simp add: disk_after_def)
qed

lemma disk_step_keeps: "fs p \<noteq> None \<Longrightarrow> disk_step w fs e p \<noteq> None"
  by (cases e) auto

lemma disk_after_keeps: "fs p \<noteq> None \<Longrightarrow> disk_after w fs evs p \<noteq> None"
proof (induction evs arbitrary: fs)
  case Nil
  then show ?case by (simp add: disk_after_Nil)
next
  case (Cons e evs)
  from Cons.prems have "disk_step w fs e p \<noteq> None" by (rule disk_step_keeps)
  then show ?case unfolding disk_after_Cons by (rule Cons.IH)
qed

lemma write_lands:
  "WriteFile k p c \<in> set evs \<Longrightarrow> writeFile w k p c = None \<Longrightarrow> disk_after w fs evs p \<noteq> None"
proof (induction evs arbitrary: fs)
  case Nil
  then show ?case by simp
next
  case (Cons e evs)
  show ?case
  proof (cases "e = WriteFile k p c")
    case True
    with Cons.prems have "disk_step w fs e p \<noteq> None" by simp
    then show ?thesis unfolding disk_after_Cons by (rule disk_after_keeps)
  next
    case False
    with Cons.prems have "WriteFile k p c \<in> set evs" by simp
    from Cons.IH[OF this Cons.prems(2)] show ?thesis unfolding disk_after_Cons .
  qed
qed

lemma disk_after_other:
  "\<forall>k c. WriteFile k p c \<notin> set evs \<Longrightarrow> disk_after w fs evs p = fs p"
proof (induction evs arbitrary: fs)
  case Nil
  then show ?case by (simp add: disk_after_Nil)
next
  case (Cons e evs)
  from Cons.prems have "disk_step w fs e p = fs p" by (cases e) auto
  moreover from Cons.prems have "\<forall>k c. WriteFile k p c \<notin> set evs" by simp
  ultimately show ?case using Cons.IH[of "disk_step w fs e"] by (simp add: disk_after_Cons)
qed

lemma capture_loop_untouched:
  assumes "capture_loop w a k pend vps = (evs, r)"
    and "\<forall>v \<in> set vps. outputPagePath w a (snd v) \<noteq> p"
  shows "disk_after w fs evs p = fs p"
proof (rule disk_after_other, intro allI notI)
  fix i c assume "WriteFile i p c \<in> set evs"
  from capture_loop_writes[OF assms(1) this]
  have "i - k < length vps" "p = outputPagePath w a (snd (vps ! (i - k)))" by auto
  with assms(2) show False by (metis nth_mem)
qed

lemma capture_loop_last:
  "capture_loop w a k pend vps = (evs, Returned ps) \<Longrightarrow> promise_all ps = None \<Longrightarrow> j < length vps \<Longrightarrow>
   (\<forall>i. j < i \<and> i < length vps \<longrightarrow>
        outputPagePath w a (snd (vps ! i)) \<noteq> outputPagePath w a (snd (vps ! j))) \<Longrightarrow>
   \<exists>c. evaluate w (k + j) = Inr c
      \<and> WriteFile (k + j) (outputPagePath w a (snd (vps ! j))) c \<in> set evs
      \<and> disk_after w fs evs (outputPagePath w a (snd (vps ! j))) = Some c"
proof (induction vps arbitrary: k pend j fs evs ps)
  case Nil
  then show ?case by simp
next
  case (Cons v vps)
  obtain n s where v: "v = (n, s)" by (cases v)
  from Cons.prems(1)[unfolded v] obtain doc evs' ps' where
    ok: "evaluate w k = Inr doc"
        "capture_loop w a (Suc k)
           (started (tick (tick (tick pend))) (unhandledAfter w k)
              (writeFile w k (outputPagePath w a s) doc)) vps = (evs', Returned ps')"
        "evs = [SetViewport k (parse_viewport s), Evaluate k,
            Mkdirp k (path_resolve w (cwd w) (outDir a)),
            WriteFile k (outputPagePath w a s) doc] @ evs'"
        "ps = writeFile w k (outputPagePath w a s) doc # ps'"
    by (rule capture_loop_Cons_ok)
  from Cons.prems(2) ok(4) have wr: "writeFile w k (outputPagePath w a s) doc = None"
    and pa: "promise_all ps' = None" by (auto simp: promise_all_None)
  let ?fs = "fs(outputPagePath w a s \<mapsto> doc)"
  have d: "disk_after w fs evs = disk_after w ?fs evs'"
    using ok(3) wr by (simp add: disk_after_Cons)
  show ?case
  proof (cases j)
    case 0
    have "\<forall>u \<in> set vps. outputPagePath w a (snd u) \<noteq> outputPagePath w a s"
    proof
      fix u assume "u \<in> set vps"
      then obtain i where "i < length vps" "vps ! i = u" by (auto simp: in_set_conv_nth)
      with Cons.prems(4)[rule_format, of "Suc i"] 0 v
      show "outputPagePath w a (snd u) \<noteq> outputPagePath w a s" by simp
    qed
    from capture_loop_untouched[OF ok(2) this, of ?fs]
    have "disk_after w ?fs evs' (outputPagePath w a s) = Some doc" by simp
    with 0 v ok d show ?thesis by simp
  next
    case (Suc j')
    have later: "\<forall>i. j' < i \<and> i < length vps \<longrightarrow>
        outputPagePath w a (snd (vps ! i)) \<noteq> outputPagePath w a (snd (vps ! j'))"
    proof (intro allI impI)
      fix i assume "j' < i \<and> i < length vps"
      with Cons.prems(4)[rule_format, of "Suc i"] Suc
      show "outputPagePath w a (snd (vps ! i)) \<noteq> outputPagePath w a (snd (vps ! j'))" by simp
    qed
    from Cons.prems(3) Suc have "j' < length vps" by simp
    from Cons.IH[OF ok(2) pa this later, of ?fs]
    obtain c where "evaluate w (Suc k + j') = Inr c"
      "WriteFile (Suc k + j') (outputPagePath w a (snd (vps ! j'))) c \<in> set evs'"
      "disk_after w ?fs evs' (outputPagePath w a (snd (vps ! j'))) = Some c" by blast
    with Suc d ok(3) show ?thesis by simp
  qed
qed

lemma capture_loop_each_written:
  "capture_loop w a k pend vps = (evs, Returned ps) \<Longrightarrow> j < length vps \<Longrightarrow>
   \<exists>c. evaluate w (k + j) = Inr c
      \<and> WriteFile (k + j) (outputPagePath w a (snd (vps ! j))) c \<in> set evs"
proof (induction vps arbitrary: k pend j evs ps)
  case Nil
  then show ?case by simp
next
  case (Cons v vps)
  obtain n s where v: "v = (n, s)" by (cases v)
  from Cons.prems(1)[unfolded v] obtain doc evs' ps' where
    ok: "evaluate w k = Inr doc"
        "capture_loop w a (Suc k)
           (started (tick (tick (tick pend))) (unhandledAfter w k)
              (writeFile w k (outputPagePath w a s) doc)) vps = (evs', Returned ps')"
        "evs = [SetViewport k (parse_viewport s), Evaluate k,
            Mkdirp k (path_resolve w (cwd w) (outDir a)),
            WriteFile k (outputPagePath w a s) doc] @ evs'"
    by (rule capture_loop_Cons_ok)
  show ?case
  proof (cases j)
    case 0
    with v ok show ?thesis by simp
  next
    case (Suc j')
    with Cons.prems(2) have "j' < length vps" by simp
    from Cons.IH[OF ok(2) this] Suc ok(3) show ?thesis by auto
  qed
qed

lemma capture_loop_dom:
  "capture_loop w a k pend vps = (evs, Returned ps) \<Longrightarrow> promise_all ps = None \<Longrightarrow>
   dom (disk_after w fs evs) = dom fs \<union> (\<lambda>v. outputPagePath w a (snd v)) ` set vps"
proof (induction vps arbitrary: k pend fs evs ps)
  case Nil
  then show ?case by (simp add: disk_after_Nil)
next
  case (Cons v vps)
  obtain n s where v: "v = (n, s)" by (cases v)
  from Cons.prems(1)[unfolded v] obtain doc evs' ps' where
    ok: "evaluate w k = Inr doc"
        "capture_loop w a (Suc k)
           (started (tick (tick (tick pend))) (unhandledAfter w k)
              (writeFile w k (outputPagePath w a s) doc)) vps = (evs', Returned ps')"
        "evs = [SetViewport k (parse_viewport s), Evaluate k,
            Mkdirp k (path_resolve w (cwd w) (outDir a)),
            WriteFile k (outputPagePath w a s) doc] @ evs'"
        "ps = writeFile w k (outputPagePath w a s) doc # ps'"
    by (rule capture_loop_Cons_ok)
  from Cons.prems(2) ok(4) have wr: "writeFile w k (outputPagePath w a s) doc = None"
    and pa: "promise_all ps' = None" by (auto simp: promise_all_None)
  let ?fs = "fs(outputPagePath w a s \<mapsto> doc)"
  have d: "disk_after w fs evs = disk_after w ?fs evs'"
    using ok(3) wr by (simp add: disk_after_Cons)
  have "dom (disk_after w fs evs) =
          dom ?fs \<union> (\<lambda>v. outputPagePath w a (snd v)) ` set vps"
    unfolding d by (rule Cons.IH[OF ok(2) pa])
  also have "\<dots> = dom fs \<union> (\<lambda>v. outputPagePath w a (snd v)) ` set (v # vps)"
    using v by auto
  finally show ?case .
qed

lemma handler_disk:
  "disk_after w fs (fst (handler w a)) =
     (if browser_started w a \<and> loop_reached w a (resolve_url w a (assigned_port w a))
      then disk_after w fs (fst (capture_loop w a 0 [] (run_viewports a))) else fs)"
proof -
  have 1: "disk_after w fs (acquisition w a) = fs" for fs
    by (rule disk_after_no_write)
       (auto simp: acquisition_def is_capture_def split: option.splits sum.splits)
  have 2: "disk_after w fs (page_setup w a u) = fs" for fs u
    by (rule disk_after_no_write) (auto simp: page_setup_def is_capture_def)
  have 3: "disk_after w fs (releases w a @ report w a) = fs" for fs
    by (rule disk_after_no_write)
       (auto simp: releases_def report_def is_capture_def split: option.splits)
  have 4: "disk_after w fs (case r of Returned ps \<Rightarrow> [AwaitAll] | _ \<Rightarrow> []) = fs"
    for fs and r :: "error option list completion"
    by (cases r) (simp_all add: disk_after_Nil disk_after_Cons)
  show ?thesis
    by (simp add: handler_trace page_block_trace disk_after_append 1 2 4 disk_after_Nil
         3[unfolded disk_after_append])
qed

section \<open>The order of events\<close>

lemma preceded_by_Nil: "preceded_by P Q []"
  by (simp add: preceded_by_def)

lemma preceded_by_Cons:
  "preceded_by P Q (e # es) \<longleftrightarrow> \<not> Q e \<and> (P e \<or> preceded_by P Q es)"
proof
  assume h: "preceded_by P Q (e # es)"
  have 1: "\<not> Q e" using h[unfolded preceded_by_def, rule_format, of 0] by auto
  have 2: "P e \<or> preceded_by P Q es"
  proof (cases "P e")
    case True then show ?thesis by simp
  next
    case False
    have "preceded_by P Q es" unfolding preceded_by_def
    proof (intro allI impI)
      fix i assume i: "i < length es" "Q (es ! i)"
      with h[unfolded preceded_by_def, rule_format, of "Suc i"]
      obtain j where j: "j < Suc i" "P ((e # es) ! j)" by auto
      with False obtain j' where "j = Suc j'" by (cases j) auto
      with j show "\<exists>j<i. P (es ! j)" by auto
    qed
    then show ?thesis by simp
  qed
  from 1 2 show "\<not> Q e \<and> (P e \<or> preceded_by P Q es)" by simp
next
  assume h: "\<not> Q e \<and> (P e \<or> preceded_by P Q es)"
  show "preceded_by P Q (e # es)" unfolding preceded_by_def
  proof (intro allI impI)
    fix i assume i: "i < length (e # es)" "Q ((e # es) ! i)"
    with h obtain i' where i': "i = Suc i'" by (cases i) auto
    from h show "\<exists>j<i. P ((e # es) ! j)"
    proof (elim conjE disjE)
      assume "P e"
      then have "0 < i \<and> P ((e # es) ! 0)" using i' by simp
      then show ?thesis by blast
    next
      assume "preceded_by P Q es"
      with i i' obtain j where "j < i'" "P (es ! j)" by (auto simp: preceded_by_def)
      then have "Suc j < i \<and> P ((e # es) ! Suc j)" using i' by simp
      then show ?thesis by blast
    qed
  qed
qed

lemma preceded_by_append:
  "preceded_by P Q (xs @ ys) \<longleftrightarrow>
     preceded_by P Q xs \<and> ((\<exists>e \<in> set xs. P e) \<or> preceded_by P Q ys)"
  by (induction xs) (auto simp: preceded_by_Cons preceded_by_Nil)

lemma preceded_by_none: "\<forall>e \<in> set xs. \<not> Q e \<Longrightarrow> preceded_by P Q xs"
  by (induction xs) (auto simp: preceded_by_Cons preceded_by_Nil)

lemma never_after_Nil: "never_after P Q []"
  by (simp add: never_after_def)

lemma never_after_Cons:
  "never_after P Q (e # es) \<longleftrightarrow> (Q e \<longrightarrow> (\<forall>x \<in> set es. \<not> P x)) \<and> never_after P Q es"
proof
  assume h: "never_after P Q (e # es)"
  have 1: "Q e \<longrightarrow> (\<forall>x \<in> set es. \<not> P x)"
  proof (intro impI ballI)
    fix x assume q: "Q e" and "x \<in> set es"
    then obtain i where i: "i < length es" "es ! i = x" by (auto simp: in_set_conv_nth)
    from h[unfolded never_after_def, rule_format, of "Suc i" 0] q i show "\<not> P x" by simp
  qed
  have 2: "never_after P Q es" unfolding never_after_def
  proof (intro allI impI)
    fix i j assume "i < length es" "j < i" "Q (es ! j)"
    with h[unfolded never_after_def, rule_format, of "Suc i" "Suc j"] show "\<not> P (es ! i)" by simp
  qed
  from 1 2 show "(Q e \<longrightarrow> (\<forall>x \<in> set es. \<not> P x)) \<and> never_after P Q es" by simp
next
  assume h: "(Q e \<longrightarrow> (\<forall>x \<in> set es. \<not> P x)) \<and> never_after P Q es"
  show "never_after P Q (e # es)" unfolding never_after_def
  proof (intro allI impI)
    fix i j assume a: "i < length (e # es)" "j < i" "Q ((e # es) ! j)"
    then obtain i' where i': "i = Suc i'" by (cases i) auto
    show "\<not> P ((e # es) ! i)"
    proof (cases j)
      case 0
      with a h i' show ?thesis by auto
    next
      case (Suc j')
      with a h i' show ?thesis by (auto simp: never_after_def)
    qed
  qed
qed

lemma never_after_append:
  "never_after P Q (xs @ ys) \<longleftrightarrow>
     never_after P Q xs \<and> never_after P Q ys \<and> ((\<exists>x \<in> set xs. Q x) \<longrightarrow> (\<forall>y \<in> set ys. \<not> P y))"
  by (induction xs) (auto simp: never_after_Cons never_after_Nil)

lemma never_after_none: "\<forall>e \<in> set xs. \<not> Q e \<Longrightarrow> never_after P Q xs"
  by (induction xs) (auto simp: never_after_Cons never_after_Nil)

lemma never_after_prefix:
  "\<forall>e \<in> set xs. \<not> Q e \<Longrightarrow> never_after P Q ys \<Longrightarrow> never_after P Q (xs @ ys)"
  by (simp add: never_after_append never_after_none)

lemmas order_simps =
  preceded_by_Cons preceded_by_Nil preceded_by_append never_after_Cons never_after_Nil
  never_after_append

lemmas kind_defs =
  done_ok_def is_listen_def is_goto_def is_inject_def resize_of_def extract_of_def write_of_def
  is_capture_def

lemma loop_resize_before_extract:
  "capture_loop w a k0 pend vps = (evs, r) \<Longrightarrow>
     preceded_by (\<lambda>e. resize_of k e \<and> done_ok w e) (extract_of k) evs"
proof (induction vps arbitrary: k0 pend evs r)
  case Nil
  then show ?case by (simp add: preceded_by_Nil)
next
  case (Cons v vps)
  obtain n s where v: "v = (n, s)" by (cases v)
  from Cons.prems v Cons.IH show ?case
    by (auto simp: Let_def order_simps kind_defs
        split: option.splits sum.splits completion.splits prod.splits)
qed

lemma loop_extract_before_write:
  "capture_loop w a k0 pend vps = (evs, r) \<Longrightarrow>
     preceded_by (\<lambda>e. extract_of k e \<and> done_ok w e) (write_of k) evs"
proof (induction vps arbitrary: k0 pend evs r)
  case Nil
  then show ?case by (simp add: preceded_by_Nil)
next
  case (Cons v vps)
  obtain n s where v: "v = (n, s)" by (cases v)
  from Cons.prems[unfolded v] show ?case
  proof (cases rule: capture_loop_Cons_cases)
    case stopped
    then have "\<forall>e \<in> set evs. \<not> write_of k e" by (auto simp: write_of_def)
    then show ?thesis by (rule preceded_by_none)
  next
    case (written doc evs' r')
    from Cons.IH[OF written(4)] written(2,5) show ?thesis
      by (auto simp: order_simps kind_defs)
  qed
qed

lemma loop_sequential:
  "capture_loop w a k0 pend vps = (evs, r) \<Longrightarrow> k0 \<le> k \<Longrightarrow>
     preceded_by (\<lambda>e. extract_of k e \<and> done_ok w e)
       (\<lambda>e. resize_of (Suc k) e \<or> extract_of (Suc k) e) evs"
proof (induction vps arbitrary: k0 pend evs r)
  case Nil
  then show ?case by (simp add: preceded_by_Nil)
next
  case (Cons v vps)
  obtain n s where v: "v = (n, s)" by (cases v)
  from Cons.prems(1)[unfolded v] show ?case
  proof (cases rule: capture_loop_Cons_cases)
    case stopped
    with Cons.prems(2)
    have "\<forall>e \<in> set evs. \<not> (resize_of (Suc k) e \<or> extract_of (Suc k) e)"
      by (auto simp: resize_of_def extract_of_def)
    then show ?thesis by (rule preceded_by_none)
  next
    case (written doc evs' r')
    show ?thesis
    proof (cases "k = k0")
      case True
      with written(2,5) show ?thesis by (auto simp: order_simps kind_defs)
    next
      case False
      with Cons.prems(2) have "Suc k0 \<le> k" by simp
      from Cons.IH[OF written(4) this] written(5) False Cons.prems(2) show ?thesis
        by (auto simp: order_simps kind_defs)
    qed
  qed
qed

lemma handler_lift:
  assumes q: "\<And>e. Q e \<Longrightarrow> is_capture e"
    and l: "\<And>evs r. capture_loop w a 0 [] (run_viewports a) = (evs, r) \<Longrightarrow> preceded_by P Q evs"
  shows "preceded_by P Q (fst (handler w a))"
proof -
  obtain evs r where c: "capture_loop w a 0 [] (run_viewports a) = (evs, r)"
    by (cases "capture_loop w a 0 [] (run_viewports a)")
  have nq: "\<And>e. \<not> is_capture e \<Longrightarrow> \<not> Q e" using q by blast
  have 1: "\<forall>e \<in> set (acquisition w a). \<not> Q e"
    using no_capture_acquisition nq by blast
  have 2: "\<forall>e \<in> set (page_setup w a u). \<not> Q e" for u
    using no_capture_setup nq by blast
  have 3: "\<forall>e \<in> set (releases w a @ report w a). \<not> Q e"
    using no_capture_releases nq by blast
  have 4: "\<not> Q AwaitAll" using nq[of AwaitAll] by (simp add: is_capture_def)
  have 5: "preceded_by P Q
             ((case r of Returned ps \<Rightarrow> [AwaitAll] | _ \<Rightarrow> []) @ releases w a @ report w a)"
    using 4 preceded_by_none[OF 3, of P]
    by (cases r) (simp_all add: preceded_by_Cons)
  have 6: "preceded_by P Q
             (evs @ (case r of Returned ps \<Rightarrow> [AwaitAll] | _ \<Rightarrow> []) @ releases w a @ report w a)"
    using l[OF c] 5 by (simp add: preceded_by_append)
  show ?thesis
  proof (cases "browser_started w a")
    case False
    then show ?thesis
      using preceded_by_none[OF 1, of P] preceded_by_none[OF 3, of P]
      by (simp add: handler_trace preceded_by_append)
  next
    case True
    show ?thesis
    proof (cases "loop_reached w a (resolve_url w a (assigned_port w a))")
      case False
      with True show ?thesis
        using preceded_by_none[OF 1, of P] preceded_by_none[OF 2, of P]
          preceded_by_none[OF 3, of P]
        by (simp add: handler_trace page_block_trace preceded_by_append)
    next
      case lr: True
      with True show ?thesis
        using preceded_by_none[OF 1, of P] preceded_by_none[OF 2, of P] 6
        by (simp add: handler_trace page_block_trace c preceded_by_append)
    qed
  qed
qed

lemma listen_before_goto:
  assumes "truthy (serve a) \<noteq> None"
  shows "preceded_by (\<lambda>e. is_listen e \<and> done_ok w e) is_goto (fst (handler w a))"
proof -
  let ?P = "\<lambda>e. is_listen e \<and> done_ok w e"
  have acq: "preceded_by ?P is_goto (acquisition w a)"
    by (rule preceded_by_none)
       (auto simp: acquisition_def is_goto_def split: option.splits sum.splits)
  have rel: "preceded_by ?P is_goto (releases w a @ report w a)"
    by (rule preceded_by_none)
       (auto simp: releases_def report_def is_goto_def split: option.splits)
  show ?thesis
  proof (cases "browser_started w a")
    case False
    with acq rel show ?thesis by (simp add: handler_trace preceded_by_append)
  next
    case True
    with assms have "\<exists>e \<in> set (acquisition w a). ?P e"
      by (auto simp: browser_started_def server_started_def acquisition_def is_listen_def
          done_ok_def split: option.splits sum.splits)
    with acq show ?thesis by (simp add: handler_trace preceded_by_append)
  qed
qed

lemma inject_before_capture:
  "preceded_by (\<lambda>e. is_inject e \<and> done_ok w e) is_capture (fst (handler w a))"
proof -
  let ?P = "\<lambda>e. is_inject e \<and> done_ok w e"
  let ?u = "resolve_url w a (assigned_port w a)"
  have acq: "preceded_by ?P is_capture (acquisition w a)"
    using no_capture_acquisition by (intro preceded_by_none) blast
  have set: "preceded_by ?P is_capture (page_setup w a ?u)"
    using no_capture_setup by (intro preceded_by_none) blast
  have rel: "preceded_by ?P is_capture (releases w a @ report w a)"
    using no_capture_releases by (intro preceded_by_none) blast
  show ?thesis
  proof (cases "browser_started w a \<and> loop_reached w a ?u")
    case False
    with acq set rel show ?thesis
      by (auto simp: handler_trace page_block_trace preceded_by_append preceded_by_Nil)
  next
    case True
    then have "\<exists>e \<in> set (page_setup w a ?u). ?P e"
      by (auto simp: loop_reached_def page_setup_def is_inject_def done_ok_def)
    with True acq set show ?thesis
      by (simp add: handler_trace page_block_trace preceded_by_append)
  qed
qed

lemma await_after_capture:
  "never_after is_capture (\<lambda>e. e = AwaitAll) (fst (handler w a))"
proof -
  let ?Q = "\<lambda>e. e = AwaitAll"
  let ?u = "resolve_url w a (assigned_port w a)"
  obtain evs r where c: "capture_loop w a 0 [] (run_viewports a) = (evs, r)"
    by (cases "capture_loop w a 0 [] (run_viewports a)")
  from capture_loop_events[OF c] have ev: "\<forall>e \<in> set evs. \<not> ?Q e"
    by (auto simp: is_capture_def)
  have acq: "\<forall>e \<in> set (acquisition w a). \<not> ?Q e"
    by (auto simp: acquisition_def split: option.splits sum.splits)
  have stp: "\<forall>e \<in> set (page_setup w a ?u). \<not> ?Q e"
    by (auto simp: page_setup_def)
  have rel: "\<forall>e \<in> set (releases w a @ report w a). \<not> ?Q e"
    by (auto simp: releases_def report_def split: option.splits)
  have rel_nc: "\<forall>e \<in> set (releases w a @ report w a). \<not> is_capture e"
    using no_capture_releases by blast
  note na = never_after_none[OF acq, of is_capture] never_after_none[OF stp, of is_capture]
    never_after_none[OF rel, of is_capture] never_after_none[OF ev, of is_capture]
  have tail: "never_after is_capture ?Q
     ((case r of Returned ps \<Rightarrow> [AwaitAll] | _ \<Rightarrow> []) @ releases w a @ report w a)"
    using rel_nc na(3) by (cases r) (simp_all add: never_after_Cons)
  show ?thesis
  proof (cases "browser_started w a \<and> loop_reached w a ?u")
    case False
    then have "\<forall>e \<in> set (fst (handler w a)). \<not> ?Q e"
      using acq stp rel by (auto simp: handler_trace page_block_trace)
    then show ?thesis by (rule never_after_none)
  next
    case True
    have "never_after is_capture ?Q
            (acquisition w a @ page_setup w a ?u @ evs
             @ (case r of Returned ps \<Rightarrow> [AwaitAll] | _ \<Rightarrow> []) @ releases w a @ report w a)"
      by (intro never_after_prefix[OF acq] never_after_prefix[OF stp]
            never_after_prefix[OF ev] tail)
    with True show ?thesis by (simp add: handler_trace page_block_trace c)
  qed
qed

section \<open>Concrete runs\<close>

lemmas run_defs =
  handler_def server_block_def makeServer_def browser_block_def page_block_def await_then_def
  try_finally_def failure_def is_killed_def seen_def tick_def started_def
  demo_world_def demo_argv_def nav_fail_world_def served_argv_def truthy_def launch_args_def
  resolve_url_def default_viewports_def outputPagePath_def twin_argv_def bad_argv_def
  two_argv_def write_fail_world_def Let_def

lemma String_num_0: "String_num 0 = ''0''"
  by (simp add: String_num.simps)

lemma String_num_1: "String_num 1 = ''1''"
  by (simp add: String_num.simps)

lemma String_num_Suc_0: "String_num (Suc 0) = ''1''"
  by (simp add: String_num.simps)

lemma String_num_8080: "String_num 8080 = ''8080''"
  by (simp add: String_num.simps)

lemma numeric_examples:
  "numeric ''1024''" "numeric ''768''" "numeric ''320''" "numeric ''568''" "numeric ''12''"
  "numeric ''2''" "numeric ''1''" "numeric ''5''" "numeric ''9007199254740993''"
  "digitless ''a''" "digitless ''b''" "digitless ''''"
  by (simp_all add: numeric_def digitless_def is_digit_def)

lemma digits_val_examples:
  "digits_val ''1024'' = 1024" "digits_val ''768'' = 768" "digits_val ''320'' = 320"
  "digits_val ''568'' = 568" "digits_val ''12'' = 12" "digits_val ''2'' = 2"
  "digits_val ''5'' = 5" "digits_val ''15'' = 15"
  "digits_val ''9007199254740993'' = 9007199254740993"
  by (simp_all add: digits_val_def digit_val_def)

lemma binary64_examples:
  "binary64 1024 = Num 1024" "binary64 768 = Num 768" "binary64 320 = Num 320"
  "binary64 568 = Num 568" "binary64 12 = Num 12" "binary64 2 = Num 2"
  "binary64 (- 5) = Num (- 5)"
  using binary64_exact_nat[of 1024] binary64_exact_nat[of 768] binary64_exact_nat[of 320]
    binary64_exact_nat[of 568] binary64_exact_nat[of 12] binary64_exact_nat[of 2]
    binary64_exact_neg[of 5]
  by simp_all

lemma parse_1024x768:
  "parse_viewport ''1024x768'' =
     \<lparr>width = Num 1024, height = Num 768, deviceScaleFactor = Num 1\<rparr>"
  using parse_WxH[of "''1024''" "''768''"]
  by (simp add: numeric_examples digits_val_examples binary64_examples)

lemma parse_320x568:
  "parse_viewport ''320x568'' =
     \<lparr>width = Num 320, height = Num 568, deviceScaleFactor = Num 1\<rparr>"
  using parse_WxH[of "''320''" "''568''"]
  by (simp add: numeric_examples digits_val_examples binary64_examples)


lemma run_demo:
  "handler demo_world demo_argv =
     ([Launch \<lparr>args = [], executablePath = None, headless = True, userDataDir = None\<rparr>,
       NewPage, Goto (Some ''http://example.com/'') (Some ''networkidle2''),
       AddScriptTag ''/app/bin/page2layers.bundle.js'',
       SetViewport 0 \<lparr>width = Num 1024, height = Num 768, deviceScaleFactor = Num 1\<rparr>,
       Evaluate 0, Mkdirp 0 ''/work/out'',
       WriteFile 0 ''/work/out/page-1024x768.asketch.json'' ''doc0'',
       AwaitAll, BrowserClose], 0)"
  by (simp add: run_defs parse_1024x768 String_num_0)

lemma run_nav_fail:
  "handler nav_fail_world served_argv =
     ([GetPort, Listen ''dist'' 8080,
       Launch \<lparr>args = [], executablePath = None, headless = True, userDataDir = None\<rparr>,
       NewPage, Goto (Some ''http://localhost:8080/index.html'') (Some ''networkidle2''),
       BrowserClose, ServerClose, ConsoleError (Error ''net::ERR_ABORTED''), ProcessExit 1], 1)"
  by (simp add: run_defs String_num_8080)


lemma run_no_target:
  "handler demo_world (demo_argv\<lparr>url := None\<rparr>) =
     ([Launch \<lparr>args = [], executablePath = None, headless = True, userDataDir = None\<rparr>,
       NewPage, Goto None (Some ''networkidle2''), BrowserClose,
       ConsoleError (Error ''url: string value expected''), ProcessExit 1], 1)"
  by (simp add: run_defs)

lemma demo_world_writes: "writeFile demo_world k p c = None"
  by (simp add: demo_world_def)


lemma started_demo:
  "\<not> server_started demo_world (demo_argv\<lparr>debug := d, viewports := v\<rparr>)"
  "browser_started demo_world (demo_argv\<lparr>debug := d, viewports := v\<rparr>)"
  "loop_reached demo_world (demo_argv\<lparr>debug := d, viewports := v\<rparr>) (Some ''http://example.com/'')"
  "resolve_url demo_world (demo_argv\<lparr>debug := d, viewports := v\<rparr>)
     (assigned_port demo_world (demo_argv\<lparr>debug := d, viewports := v\<rparr>))
     = Some ''http://example.com/''"
  by (simp_all add: server_started_def browser_started_def loop_reached_def assigned_port_def
      run_defs)

lemma run_twin:
  "handler demo_world twin_argv =
     ([Launch \<lparr>args = [], executablePath = None, headless = True, userDataDir = None\<rparr>,
       NewPage, Goto (Some ''http://example.com/'') (Some ''networkidle2''),
       AddScriptTag ''/app/bin/page2layers.bundle.js'',
       SetViewport 0 \<lparr>width = Num 320, height = Num 568, deviceScaleFactor = Num 1\<rparr>,
       Evaluate 0, Mkdirp 0 ''/work/out'',
       WriteFile 0 ''/work/out/page-320x568.asketch.json'' ''doc0'',
       SetViewport 1 \<lparr>width = Num 320, height = Num 568, deviceScaleFactor = Num 1\<rparr>,
       Evaluate 1, Mkdirp 1 ''/work/out'',
       WriteFile 1 ''/work/out/page-320x568.asketch.json'' ''doc1'',
       AwaitAll, BrowserClose], 0)"
  by (simp add: run_defs parse_320x568 String_num_0 String_num_Suc_0)


lemma run_write_fail:
  "handler write_fail_world two_argv =
     ([Launch \<lparr>args = [], executablePath = None, headless = True, userDataDir = None\<rparr>,
       NewPage, Goto (Some ''http://example.com/'') (Some ''networkidle2''),
       AddScriptTag ''/app/bin/page2layers.bundle.js'',
       SetViewport 0 \<lparr>width = Num 320, height = Num 568, deviceScaleFactor = Num 1\<rparr>,
       Evaluate 0, Mkdirp 0 ''/work/out'',
       WriteFile 0 ''/work/out/page-320x568.asketch.json'' ''doc0'',
       SetViewport 1 \<lparr>width = Num 1024, height = Num 768, deviceScaleFactor = Num 1\<rparr>,
       ConsoleError (Error ''EACCES''), ProcessExit 1], 1)"
  by (simp add: run_defs parse_320x568 parse_1024x768 String_num_0 String_num_Suc_0)


section \<open>Runs that are killed\<close>





text \<open>The browser is closed exactly in the runs that get as far as its \<open>finally\<close>.\<close>

lemma browser_close_iff:
  "BrowserClose \<in> set (fst (handler w a)) \<longleftrightarrow>
     browser_started w a \<and> \<not> debug a \<and> \<not> killed w a"
  using no_close_in_acquisition[of w a] no_close_in_page[of w a]
  by (auto simp: handler_trace releases_def report_def split: option.splits if_splits)

lemma launch_headless: "Launch la \<in> set (fst (handler w a)) \<Longrightarrow> headless la = (\<not> debug a)"
  using launch_in_handler[of la w a] by (simp add: launch_args_def)

section \<open>The claims\<close>




text \<open>
  C2, as the code has it. The URL the page is sent to is decided in this order: if
  serving is active, it is the join of \<open>http://localhost:<port>\<close> with the configured
  url, \<open>/\<close> when there is none; else if a file path is configured, it is \<open>file://\<close>
  followed by the current working directory joined with that path; else it is the
  configured url as it is (undefined when there is none). So when both a file path and
  serve are configured the serve branch applies. Every navigation of a run goes to that
  URL, with the port \<open>getPort\<close> assigned.
\<close>

theorem navigation_target:
  "resolve_url w a port =
     (case truthy (serve a) of
        Some dir \<Rightarrow>
          Some (urlJoin w
                  (''http://localhost:'' @ (case port of None \<Rightarrow> ''null'' | Some p \<Rightarrow> String_num p))
                  (case truthy (url a) of None \<Rightarrow> ''/'' | Some u \<Rightarrow> u))
      | None \<Rightarrow>
          (case truthy (file' a) of
             Some f \<Rightarrow> Some (''file://'' @ path_join w (cwd w) f)
           | None \<Rightarrow> url a))
   \<and> (\<forall>u wu. Goto u wu \<in> set (fst (handler w a)) \<longrightarrow> u = resolve_url w a (assigned_port w a))"
  using goto_in_handler[of _ _ w a]
  by (auto simp: resolve_url_def split: option.splits)

theorem navigation_target_witness:
  "resolve_url demo_world (served_argv\<lparr>file' := Some ''index.html''\<rparr>) (Some 8080)
     = Some ''http://localhost:8080/index.html''
   \<and> resolve_url demo_world (demo_argv\<lparr>url := None, file' := Some ''index.html''\<rparr>) None
     = Some ''file:///work/index.html''
   \<and> resolve_url demo_world demo_argv None = Some ''http://example.com/''"
  using navigation_target[of demo_world "served_argv\<lparr>file' := Some ''index.html''\<rparr>" "Some 8080"]
    navigation_target[of demo_world "demo_argv\<lparr>url := None, file' := Some ''index.html''\<rparr>" None]
    navigation_target[of demo_world demo_argv None]
  by (simp add: served_argv_def demo_argv_def demo_world_def truthy_def String_num_8080)

text \<open>
  C2 as stated fails: with both a file path and serve configured, the page is sent to
  the served URL and not to the \<open>file://\<close> URL.
\<close>

theorem serve_wins_over_file_counterexample:
  "resolve_url demo_world (served_argv\<lparr>url := None, file' := Some ''index.html''\<rparr>) (Some 8080)
     = Some ''http://localhost:8080/''
   \<and> Some (''file://'' @ path_join demo_world (cwd demo_world) ''index.html'')
     = Some ''file:///work/index.html''
   \<and> Goto (Some ''http://localhost:8080/'') (Some ''networkidle2'')
       \<in> set (fst (handler demo_world (served_argv\<lparr>url := None, file' := Some ''index.html''\<rparr>)))"
  by (simp add: run_defs String_num_8080 String_num_0 parse_1024x768)

text \<open>
  C3. Every write of a run goes to the path made by joining the resolved output
  directory with \<open>page-<spec>.asketch.json\<close>, where \<open>spec\<close> is the spec string of the
  viewport entry being processed; the name of the viewport plays no part, and the content
  is what the extraction returned for that entry. After a successful run the files
  created are exactly the paths of the spec strings, so two entries with the same spec
  string share one file; both write to it, and it holds the document of the later one
  (later entries of another path leave it alone).
\<close>

theorem output_keyed_by_spec_string:
  "(\<forall>k p c. WriteFile k p c \<in> set (fst (handler w a)) \<longrightarrow>
       k < length (run_viewports a)
       \<and> p = path_join w (path_resolve w (cwd w) (outDir a))
               (''page-'' @ snd (run_viewports a ! k) @ ''.asketch.json'')
       \<and> evaluate w k = Inr c)
   \<and> (snd (handler w a) = 0 \<longrightarrow>
        dom (disk_after w fs (fst (handler w a))) =
          dom fs \<union> (\<lambda>v. outputPagePath w a (snd v)) ` set (run_viewports a))
   \<and> (snd (handler w a) = 0 \<and> i < j \<and> j < length (run_viewports a)
        \<and> snd (run_viewports a ! i) = snd (run_viewports a ! j)
        \<and> (\<forall>k. j < k \<and> k < length (run_viewports a) \<longrightarrow>
              outputPagePath w a (snd (run_viewports a ! k))
                \<noteq> outputPagePath w a (snd (run_viewports a ! j)))
      \<longrightarrow> (\<exists>ci cj.
             WriteFile i (outputPagePath w a (snd (run_viewports a ! j))) ci \<in> set (fst (handler w a))
           \<and> WriteFile j (outputPagePath w a (snd (run_viewports a ! j))) cj \<in> set (fst (handler w a))
           \<and> evaluate w j = Inr cj
           \<and> disk_after w fs (fst (handler w a)) (outputPagePath w a (snd (run_viewports a ! j)))
               = Some cj))"
proof (intro conjI)
  show "\<forall>k p c. WriteFile k p c \<in> set (fst (handler w a)) \<longrightarrow>
       k < length (run_viewports a)
       \<and> p = path_join w (path_resolve w (cwd w) (outDir a))
               (''page-'' @ snd (run_viewports a ! k) @ ''.asketch.json'')
       \<and> evaluate w k = Inr c"
    using write_in_handler[of _ _ _ w a] by (auto simp: outputPagePath_def)
next
  show "snd (handler w a) = 0 \<longrightarrow>
        dom (disk_after w fs (fst (handler w a))) =
          dom fs \<union> (\<lambda>v. outputPagePath w a (snd v)) ` set (run_viewports a)"
  proof
  assume "snd (handler w a) = 0"
  then obtain ps where s: "browser_started w a"
      "loop_reached w a (resolve_url w a (assigned_port w a))"
      "snd (capture_loop w a 0 [] (run_viewports a)) = Returned ps" "promise_all ps = None"
    by (auto simp: status_zero)
  obtain evs where l: "capture_loop w a 0 [] (run_viewports a) = (evs, Returned ps)"
    using s(3) by (cases "capture_loop w a 0 [] (run_viewports a)") auto
  from capture_loop_dom[OF l s(4), of fs] s(1,2) l
  show "dom (disk_after w fs (fst (handler w a))) =
          dom fs \<union> (\<lambda>v. outputPagePath w a (snd v)) ` set (run_viewports a)"
    by (simp add: handler_disk)
  qed
next
  let ?vps = "run_viewports a"
  show "snd (handler w a) = 0 \<and> i < j \<and> j < length ?vps
        \<and> snd (?vps ! i) = snd (?vps ! j)
        \<and> (\<forall>k. j < k \<and> k < length ?vps \<longrightarrow>
              outputPagePath w a (snd (?vps ! k)) \<noteq> outputPagePath w a (snd (?vps ! j)))
      \<longrightarrow> (\<exists>ci cj.
             WriteFile i (outputPagePath w a (snd (?vps ! j))) ci \<in> set (fst (handler w a))
           \<and> WriteFile j (outputPagePath w a (snd (?vps ! j))) cj \<in> set (fst (handler w a))
           \<and> evaluate w j = Inr cj
           \<and> disk_after w fs (fst (handler w a)) (outputPagePath w a (snd (?vps ! j)))
               = Some cj)"
  proof
  assume h: "snd (handler w a) = 0 \<and> i < j \<and> j < length ?vps
        \<and> snd (?vps ! i) = snd (?vps ! j)
        \<and> (\<forall>k. j < k \<and> k < length ?vps \<longrightarrow>
              outputPagePath w a (snd (?vps ! k)) \<noteq> outputPagePath w a (snd (?vps ! j)))"
  then obtain ps where s: "browser_started w a"
      "loop_reached w a (resolve_url w a (assigned_port w a))"
      "snd (capture_loop w a 0 [] ?vps) = Returned ps" "promise_all ps = None"
    by (auto simp: status_zero)
  obtain evs where l: "capture_loop w a 0 [] ?vps = (evs, Returned ps)"
    using s(3) by (cases "capture_loop w a 0 [] ?vps") auto
  have sub: "set evs \<subseteq> set (fst (handler w a))"
    using s(1,2) l by (auto simp: handler_trace page_block_trace)
  from h have ij: "i < length ?vps" "j < length ?vps" by auto
  from capture_loop_each_written[OF l ij(1)] h
  obtain ci where ci: "WriteFile i (outputPagePath w a (snd (?vps ! j))) ci \<in> set evs" by auto
  from capture_loop_last[OF l s(4) ij(2), of fs] h
  obtain cj where cj: "evaluate w j = Inr cj"
      "WriteFile j (outputPagePath w a (snd (?vps ! j))) cj \<in> set evs"
      "disk_after w fs evs (outputPagePath w a (snd (?vps ! j))) = Some cj" by auto
  from cj(3) s(1,2) l
  have "disk_after w fs (fst (handler w a)) (outputPagePath w a (snd (?vps ! j))) = Some cj"
    by (simp add: handler_disk)
  with ci cj sub
  show "\<exists>ci cj.
             WriteFile i (outputPagePath w a (snd (?vps ! j))) ci \<in> set (fst (handler w a))
           \<and> WriteFile j (outputPagePath w a (snd (?vps ! j))) cj \<in> set (fst (handler w a))
           \<and> evaluate w j = Inr cj
           \<and> disk_after w fs (fst (handler w a)) (outputPagePath w a (snd (?vps ! j))) = Some cj"
    by blast
  qed
qed

theorem output_keyed_by_spec_string_witness:
  "snd (handler demo_world twin_argv) = 0
   \<and> dom (disk_after demo_world Map.empty (fst (handler demo_world twin_argv)))
       = {''/work/out/page-320x568.asketch.json''}
   \<and> disk_after demo_world Map.empty (fst (handler demo_world twin_argv))
       ''/work/out/page-320x568.asketch.json'' = Some ''doc1''"
proof -
  have rv: "run_viewports twin_argv = [(''Phone'', ''320x568''), (''Handset'', ''320x568'')]"
    by (simp add: run_viewports_def twin_argv_def demo_argv_def)
  have op: "outputPagePath demo_world twin_argv ''320x568'' = ''/work/out/page-320x568.asketch.json''"
    by (simp add: outputPagePath_def demo_world_def twin_argv_def demo_argv_def)
  have ev: "evaluate demo_world (Suc 0) = Inr ''doc1''"
    by (simp add: demo_world_def String_num_Suc_0)
  have st: "snd (handler demo_world twin_argv) = 0" by (simp add: run_twin)
  note t = output_keyed_by_spec_string[of demo_world twin_argv Map.empty 0 1]
  from t[THEN conjunct2, THEN conjunct1, rule_format, OF st]
  have 1: "dom (disk_after demo_world Map.empty (fst (handler demo_world twin_argv)))
       = {''/work/out/page-320x568.asketch.json''}"
    unfolding rv by (simp add: op)
  have pre: "snd (handler demo_world twin_argv) = 0 \<and> (0::nat) < 1
        \<and> 1 < length (run_viewports twin_argv)
        \<and> snd (run_viewports twin_argv ! 0) = snd (run_viewports twin_argv ! 1)
        \<and> (\<forall>k. 1 < k \<and> k < length (run_viewports twin_argv) \<longrightarrow>
              outputPagePath demo_world twin_argv (snd (run_viewports twin_argv ! k))
                \<noteq> outputPagePath demo_world twin_argv (snd (run_viewports twin_argv ! 1)))"
    unfolding rv using st by simp
  from t[THEN conjunct2, THEN conjunct2, rule_format, OF pre]
  obtain cj where "evaluate demo_world 1 = Inr cj"
    "disk_after demo_world Map.empty (fst (handler demo_world twin_argv))
       (outputPagePath demo_world twin_argv (snd (run_viewports twin_argv ! 1))) = Some cj"
    by blast
  then have 2: "disk_after demo_world Map.empty (fst (handler demo_world twin_argv))
       ''/work/out/page-320x568.asketch.json'' = Some ''doc1''"
    unfolding rv by (simp add: op ev)
  from st 1 2 show ?thesis by simp
qed

text \<open>
  C4. In every run: when serving, a navigation comes only after the server's listen
  has succeeded; a resize, extraction, directory creation or write comes only after the
  injection has succeeded; the extraction of a viewport comes only after its resize has
  succeeded; the resize and the extraction of the next viewport come only after the
  extraction of this one has succeeded; the write of a viewport is started only after its
  extraction has succeeded; and the writes are awaited only together, after the whole
  loop, so that nothing orders the write of one viewport against that of another.
\<close>

theorem pipeline_order:
  "(truthy (serve a) \<noteq> None \<longrightarrow>
      preceded_by (\<lambda>e. is_listen e \<and> done_ok w e) is_goto (fst (handler w a)))
   \<and> preceded_by (\<lambda>e. is_inject e \<and> done_ok w e) is_capture (fst (handler w a))
   \<and> preceded_by (\<lambda>e. resize_of k e \<and> done_ok w e) (extract_of k) (fst (handler w a))
   \<and> preceded_by (\<lambda>e. extract_of k e \<and> done_ok w e)
       (\<lambda>e. resize_of (Suc k) e \<or> extract_of (Suc k) e) (fst (handler w a))
   \<and> preceded_by (\<lambda>e. extract_of k e \<and> done_ok w e) (write_of k) (fst (handler w a))
   \<and> never_after is_capture (\<lambda>e. e = AwaitAll) (fst (handler w a))"
proof (intro conjI impI)
  assume "truthy (serve a) \<noteq> None"
  then show "preceded_by (\<lambda>e. is_listen e \<and> done_ok w e) is_goto (fst (handler w a))"
    by (rule listen_before_goto)
next
  show "preceded_by (\<lambda>e. is_inject e \<and> done_ok w e) is_capture (fst (handler w a))"
    by (rule inject_before_capture)
next
  show "preceded_by (\<lambda>e. resize_of k e \<and> done_ok w e) (extract_of k) (fst (handler w a))"
  proof (rule handler_lift)
    show "\<And>e. extract_of k e \<Longrightarrow> is_capture e"
      by (auto simp: extract_of_def is_capture_def split: event.splits)
  qed (rule loop_resize_before_extract)
next
  show "preceded_by (\<lambda>e. extract_of k e \<and> done_ok w e)
       (\<lambda>e. resize_of (Suc k) e \<or> extract_of (Suc k) e) (fst (handler w a))"
  proof (rule handler_lift)
    show "\<And>e. resize_of (Suc k) e \<or> extract_of (Suc k) e \<Longrightarrow> is_capture e"
      by (auto simp: resize_of_def extract_of_def is_capture_def split: event.splits)
    show "\<And>evs r. capture_loop w a 0 [] (run_viewports a) = (evs, r) \<Longrightarrow>
            preceded_by (\<lambda>e. extract_of k e \<and> done_ok w e)
              (\<lambda>e. resize_of (Suc k) e \<or> extract_of (Suc k) e) evs"
      using loop_sequential[where w = w and a = a and ?k0.0 = 0 and k = k] by simp
  qed
next
  show "preceded_by (\<lambda>e. extract_of k e \<and> done_ok w e) (write_of k) (fst (handler w a))"
  proof (rule handler_lift)
    show "\<And>e. write_of k e \<Longrightarrow> is_capture e"
      by (auto simp: write_of_def is_capture_def split: event.splits)
  qed (rule loop_extract_before_write)
next
  show "never_after is_capture (\<lambda>e. e = AwaitAll) (fst (handler w a))"
    by (rule await_after_capture)
qed

theorem pipeline_order_witness:
  "preceded_by (\<lambda>e. is_listen e \<and> done_ok nav_fail_world e) is_goto
     (fst (handler nav_fail_world served_argv))
   \<and> Goto (Some ''http://localhost:8080/index.html'') (Some ''networkidle2'')
       \<in> set (fst (handler nav_fail_world served_argv))
   \<and> preceded_by (\<lambda>e. is_inject e \<and> done_ok demo_world e) is_capture
       (fst (handler demo_world twin_argv))
   \<and> preceded_by (\<lambda>e. resize_of 0 e \<and> done_ok demo_world e) (extract_of 0)
       (fst (handler demo_world twin_argv))
   \<and> preceded_by (\<lambda>e. extract_of 0 e \<and> done_ok demo_world e)
       (\<lambda>e. resize_of (Suc 0) e \<or> extract_of (Suc 0) e) (fst (handler demo_world twin_argv))
   \<and> preceded_by (\<lambda>e. extract_of 0 e \<and> done_ok demo_world e) (write_of 0)
       (fst (handler demo_world twin_argv))
   \<and> never_after is_capture (\<lambda>e. e = AwaitAll) (fst (handler demo_world twin_argv))
   \<and> Evaluate (Suc 0) \<in> set (fst (handler demo_world twin_argv))
   \<and> AwaitAll \<in> set (fst (handler demo_world twin_argv))"
proof -
  have t: "truthy (serve served_argv) \<noteq> None"
    by (simp add: served_argv_def demo_argv_def truthy_def)
  from pipeline_order[of served_argv nav_fail_world 0] t
  have 1: "preceded_by (\<lambda>e. is_listen e \<and> done_ok nav_fail_world e) is_goto
     (fst (handler nav_fail_world served_argv))" by blast
  have 2: "Goto (Some ''http://localhost:8080/index.html'') (Some ''networkidle2'')
       \<in> set (fst (handler nav_fail_world served_argv))"
    and 3: "Evaluate (Suc 0) \<in> set (fst (handler demo_world twin_argv))"
    and 4: "AwaitAll \<in> set (fst (handler demo_world twin_argv))"
    by (simp_all add: run_nav_fail run_twin)
  from pipeline_order[of twin_argv demo_world 0] 1 2 3 4 show ?thesis by blast
qed




text \<open>
  C6, as the code has it. When none of url, serve and file is supplied, nothing checks
  the configuration: the first thing the run does is launch the browser, and once the
  browser and its page are there the navigation is attempted with an undefined URL.
  Any failure of such a run comes from a call made after the launch.
\<close>

theorem no_target_still_launches:
  assumes "serve a = None" "url a = None" "file' a = None"
  shows "(\<exists>rest. fst (handler w a) = Launch (launch_args a) # rest)
       \<and> (\<forall>u wu. Goto u wu \<in> set (fst (handler w a)) \<longrightarrow> u = None)
       \<and> (launch w (launch_args a) = None \<and> newPage w = None \<longrightarrow>
            Goto None (puppeteerWaitUntil a) \<in> set (fst (handler w a)))
       \<and> (snd (handler w a) = 1 \<longrightarrow> (\<exists>ev \<in> set (fst (handler w a)). rejected w ev \<noteq> None))"
proof -
  have t: "truthy (serve a) = None" using assms by (simp add: truthy_def)
  have r: "resolve_url w a (assigned_port w a) = None"
    using assms by (simp add: resolve_url_def truthy_def)
  have 1: "\<exists>rest. fst (handler w a) = Launch (launch_args a) # rest"
    using t by (simp add: handler_trace acquisition_def)
  have 2: "\<forall>u wu. Goto u wu \<in> set (fst (handler w a)) \<longrightarrow> u = None"
    using goto_in_handler[of _ _ w a] r by auto
  have 3: "launch w (launch_args a) = None \<and> newPage w = None \<longrightarrow>
            Goto None (puppeteerWaitUntil a) \<in> set (fst (handler w a))"
    using goto_reached[of w a] t r by (auto simp: browser_started_def)
  have 4: "snd (handler w a) = 1 \<longrightarrow> (\<exists>ev \<in> set (fst (handler w a)). rejected w ev \<noteq> None)"
    using status_iff_no_rejection[of w a] by auto
  from 1 2 3 4 show ?thesis by blast
qed

theorem no_target_still_launches_witness:
  "serve (demo_argv\<lparr>url := None\<rparr>) = None \<and> url (demo_argv\<lparr>url := None\<rparr>) = None
   \<and> file' (demo_argv\<lparr>url := None\<rparr>) = None
   \<and> (\<exists>rest. fst (handler demo_world (demo_argv\<lparr>url := None\<rparr>))
         = Launch (launch_args (demo_argv\<lparr>url := None\<rparr>)) # rest)
   \<and> Goto None (Some ''networkidle2'') \<in> set (fst (handler demo_world (demo_argv\<lparr>url := None\<rparr>)))"
  using no_target_still_launches[of "demo_argv\<lparr>url := None\<rparr>" demo_world]
  by (simp add: demo_argv_def demo_world_def)

text \<open>
  C6 as stated fails: with none of url, serve and file supplied, the browser is
  launched and a page opened before anything fails, and what fails is the navigation.
\<close>

theorem launch_before_failure_counterexample:
  "handler demo_world (demo_argv\<lparr>url := None\<rparr>) =
     ([Launch \<lparr>args = [], executablePath = None, headless = True, userDataDir = None\<rparr>,
       NewPage, Goto None (Some ''networkidle2''), BrowserClose,
       ConsoleError (Error ''url: string value expected''), ProcessExit 1], 1)"
  using run_no_target by simp

text \<open>
  C7. The browser is launched headed exactly when the debug flag is set, and with debug
  set it is never closed. With debug unset the claim fails on the run below: two
  viewports, the write of the first rejected while the resize of the second is awaited.
  The rejection has no handler yet, the process is killed, and the browser that was
  launched is never closed.
\<close>

theorem browser_left_open_after_write_rejection:
  "\<not> debug two_argv
   \<and> browser_started write_fail_world two_argv
   \<and> writeFile write_fail_world 0 ''/work/out/page-320x568.asketch.json'' ''doc0''
       = Some (Error ''EACCES'')
   \<and> handler write_fail_world two_argv =
     ([Launch \<lparr>args = [], executablePath = None, headless = True, userDataDir = None\<rparr>,
       NewPage, Goto (Some ''http://example.com/'') (Some ''networkidle2''),
       AddScriptTag ''/app/bin/page2layers.bundle.js'',
       SetViewport 0 \<lparr>width = Num 320, height = Num 568, deviceScaleFactor = Num 1\<rparr>,
       Evaluate 0, Mkdirp 0 ''/work/out'',
       WriteFile 0 ''/work/out/page-320x568.asketch.json'' ''doc0'',
       SetViewport 1 \<lparr>width = Num 1024, height = Num 768, deviceScaleFactor = Num 1\<rparr>,
       ConsoleError (Error ''EACCES''), ProcessExit 1], 1)
   \<and> BrowserClose \<notin> set (fst (handler write_fail_world two_argv))"
proof -
  have 1: "\<not> debug two_argv" by (simp add: two_argv_def demo_argv_def)
  have 2: "browser_started write_fail_world two_argv"
    by (simp add: browser_started_def two_argv_def demo_argv_def write_fail_world_def
        demo_world_def truthy_def)
  have 3: "writeFile write_fail_world 0 ''/work/out/page-320x568.asketch.json'' ''doc0''
       = Some (Error ''EACCES'')"
    by (simp add: write_fail_world_def)
  have 4: "BrowserClose \<notin> set (fst (handler write_fail_world two_argv))"
    by (simp add: run_write_fail)
  from 1 2 3 4 run_write_fail show ?thesis by blast
qed

text \<open>
  C8. The exit code is 0 or 1. It is 0 exactly when no call the run made was rejected,
  and then nothing is printed to the error stream and \<open>process.exit\<close> is not called.
  It is 1 on any rejected call, and then the run ends by printing the error of a rejected
  call and exiting with code 1, once. Nothing is rolled back: a file whose write succeeded
  is on disk at the end of the run, and every file on disk at any point of the run is
  still there at its end.
\<close>

theorem exit_codes_and_no_rollback:
  "(snd (handler w a) = 0 \<or> snd (handler w a) = 1)
   \<and> (snd (handler w a) = 0 \<longleftrightarrow> (\<forall>ev \<in> set (fst (handler w a)). rejected w ev = None))
   \<and> (snd (handler w a) = 0 \<longrightarrow> (\<forall>ev \<in> set (fst (handler w a)). \<not> is_report ev))
   \<and> (snd (handler w a) = 1 \<longrightarrow>
        (\<exists>body err. fst (handler w a) = body @ [ConsoleError err, ProcessExit 1]
           \<and> (\<forall>ev \<in> set body. \<not> is_report ev)
           \<and> (\<exists>ev \<in> set body. rejected w ev = Some err)))
   \<and> (\<forall>k p c. WriteFile k p c \<in> set (fst (handler w a)) \<and> writeFile w k p c = None \<longrightarrow>
         disk_after w fs (fst (handler w a)) p \<noteq> None)
   \<and> (\<forall>pre post. fst (handler w a) = pre @ post \<longrightarrow>
         dom (disk_after w fs pre) \<subseteq> dom (disk_after w fs (fst (handler w a))))"
proof (intro conjI)
  show "snd (handler w a) = 0 \<or> snd (handler w a) = 1"
    by (simp add: handler_status split: option.splits)
  show "snd (handler w a) = 0 \<longleftrightarrow> (\<forall>ev \<in> set (fst (handler w a)). rejected w ev = None)"
    by (rule status_iff_no_rejection)
  show "snd (handler w a) = 0 \<longrightarrow> (\<forall>ev \<in> set (fst (handler w a)). \<not> is_report ev)"
  proof
    assume "snd (handler w a) = 0"
    then have "report w a = []" by (simp add: handler_status report_def split: option.splits)
    then show "\<forall>ev \<in> set (fst (handler w a)). \<not> is_report ev"
      using work_not_teardown[of _ w a] report_is_teardown
      by (auto simp: handler_work releases_def is_report_def split: if_splits)
  qed
  show "snd (handler w a) = 1 \<longrightarrow>
        (\<exists>body err. fst (handler w a) = body @ [ConsoleError err, ProcessExit 1]
           \<and> (\<forall>ev \<in> set body. \<not> is_report ev)
           \<and> (\<exists>ev \<in> set body. rejected w ev = Some err))"
  proof
    assume "snd (handler w a) = 1"
    then obtain err where e: "failure (snd (server_block w a)) = Some err"
      by (auto simp: handler_status split: option.splits)
    let ?body = "work w a @ releases w a"
    have 1: "fst (handler w a) = ?body @ [ConsoleError err, ProcessExit 1]"
      using e by (simp add: handler_work report_def)
    have 2: "\<forall>ev \<in> set ?body. \<not> is_report ev"
      using work_not_teardown[of _ w a] report_is_teardown
      by (auto simp: releases_def is_report_def split: if_splits)
    have 3: "\<exists>ev \<in> set ?body. rejected w ev = Some err"
      using work_rejected[of w a] e by auto
    from 1 2 3 show "\<exists>body err. fst (handler w a) = body @ [ConsoleError err, ProcessExit 1]
           \<and> (\<forall>ev \<in> set body. \<not> is_report ev)
           \<and> (\<exists>ev \<in> set body. rejected w ev = Some err)" by blast
  qed
  show "\<forall>k p c. WriteFile k p c \<in> set (fst (handler w a)) \<and> writeFile w k p c = None \<longrightarrow>
         disk_after w fs (fst (handler w a)) p \<noteq> None"
    using write_lands by blast
  show "\<forall>pre post. fst (handler w a) = pre @ post \<longrightarrow>
         dom (disk_after w fs pre) \<subseteq> dom (disk_after w fs (fst (handler w a)))"
  proof (intro allI impI)
    fix pre post assume "fst (handler w a) = pre @ post"
    then have "disk_after w fs (fst (handler w a)) = disk_after w (disk_after w fs pre) post"
      by (simp add: disk_after_append)
    then show "dom (disk_after w fs pre) \<subseteq> dom (disk_after w fs (fst (handler w a)))"
      using disk_after_keeps[of "disk_after w fs pre" _ w post] by (auto simp: dom_def)
  qed
qed

theorem exit_codes_and_no_rollback_witness:
  "snd (handler demo_world demo_argv) = 0
   \<and> disk_after demo_world Map.empty (fst (handler demo_world demo_argv))
        ''/work/out/page-1024x768.asketch.json'' \<noteq> None
   \<and> snd (handler nav_fail_world served_argv) = 1
   \<and> (\<exists>body err. fst (handler nav_fail_world served_argv) = body @ [ConsoleError err, ProcessExit 1]
         \<and> (\<exists>ev \<in> set body. rejected nav_fail_world ev = Some err))"
proof -
  note ok = exit_codes_and_no_rollback[of demo_world demo_argv Map.empty]
  note ko = exit_codes_and_no_rollback[of nav_fail_world served_argv Map.empty]
  have 1: "snd (handler demo_world demo_argv) = 0" by (simp add: run_demo)
  have "WriteFile 0 ''/work/out/page-1024x768.asketch.json'' ''doc0''
          \<in> set (fst (handler demo_world demo_argv))
        \<and> writeFile demo_world 0 ''/work/out/page-1024x768.asketch.json'' ''doc0'' = None"
    by (simp add: run_demo demo_world_writes)
  with ok have 2: "disk_after demo_world Map.empty (fst (handler demo_world demo_argv))
        ''/work/out/page-1024x768.asketch.json'' \<noteq> None" by blast
  have 3: "snd (handler nav_fail_world served_argv) = 1" by (simp add: run_nav_fail)
  with ko have 4: "\<exists>body err. fst (handler nav_fail_world served_argv)
                       = body @ [ConsoleError err, ProcessExit 1]
         \<and> (\<exists>ev \<in> set body. rejected nav_fail_world ev = Some err)" by blast
  from 1 2 3 4 show ?thesis by blast
qed

text \<open>
  C9. A viewport spec string that ends in a bare \<open>@\<close>, its only one, with nothing after
  it, parses to a device scale factor of \<open>NaN\<close> and not to the default 1: the default is
  taken only when the string has no \<open>@\<close> at all, since the scale component is then
  undefined, whereas after a bare \<open>@\<close> it is the empty string. The loop passes that
  \<open>NaN\<close> on to the resize of the page.
\<close>

theorem bare_at_scale_is_NaN:
  assumes "CHR ''@'' \<notin> set s"
  shows "deviceScaleFactor (parse_viewport (s @ ''@'')) = NaN
       \<and> deviceScaleFactor (parse_viewport s) = Num 1
       \<and> (\<exists>vp evs. fst (capture_loop w a k pend ((name, s @ ''@'') # rest)) = SetViewport k vp # evs
             \<and> deviceScaleFactor vp = NaN)"
  using scale_of_bare_at[OF assms] scale_without_at[OF assms]
    capture_loop_first[of w a k pend name "s @ ''@''" rest]
  by auto

theorem bare_at_scale_is_NaN_witness:
  "CHR ''@'' \<notin> set ''1024x768''
   \<and> deviceScaleFactor (parse_viewport ''1024x768@'') = NaN
   \<and> deviceScaleFactor (parse_viewport ''1024x768'') = Num 1
   \<and> (\<exists>vp evs. fst (capture_loop demo_world demo_argv 0 [] [(''Desktop'', ''1024x768@'')])
                  = SetViewport 0 vp # evs \<and> deviceScaleFactor vp = NaN)"
  using bare_at_scale_is_NaN[of "''1024x768''" demo_world demo_argv 0 "[]" "''Desktop''" "[]"]
  by simp

text \<open>
  C10. When the viewports mapping is present but empty, the loop runs no iteration: no
  run makes a resize, an extraction, a directory creation or a write, and the disk is
  left as it was. Such a run fails only if a stage before the loop fails: once the
  browser is launched and the page opened, navigated and injected, the writes awaited are
  none and the exit code is 0.
\<close>

theorem empty_viewports_capture_nothing:
  assumes "viewports a = Some []"
  shows "(\<forall>e \<in> set (fst (handler w a)). \<not> is_capture e)
       \<and> disk_after w fs (fst (handler w a)) = fs
       \<and> (snd (handler w a) = 0 \<longleftrightarrow>
            browser_started w a \<and> loop_reached w a (resolve_url w a (assigned_port w a)))
       \<and> (snd (handler w a) = 0 \<longrightarrow> AwaitAll \<in> set (fst (handler w a)))"
proof -
  have rv: "run_viewports a = []" using assms by (simp add: run_viewports_def)
  have 1: "\<forall>e \<in> set (fst (handler w a)). \<not> is_capture e"
    by (auto simp: handler_trace page_block_trace rv acquisition_def page_setup_def releases_def
         report_def is_capture_def split: option.splits sum.splits if_splits)
  have 2: "disk_after w fs (fst (handler w a)) = fs" using 1 by (rule disk_after_no_write)
  note 3 = loop_empty_status[OF assms, of w]
  have 4: "snd (handler w a) = 0 \<longrightarrow> AwaitAll \<in> set (fst (handler w a))"
    using 3 by (auto simp: handler_trace page_block_trace rv)
  from 1 2 3 4 show ?thesis by blast
qed

theorem empty_viewports_capture_nothing_witness:
  "viewports (demo_argv\<lparr>debug := False, viewports := Some []\<rparr>) = Some []
   \<and> list_all (\<lambda>e. \<not> is_capture e)
         (fst (handler demo_world (demo_argv\<lparr>debug := False, viewports := Some []\<rparr>)))
   \<and> disk_after demo_world Map.empty
        (fst (handler demo_world (demo_argv\<lparr>debug := False, viewports := Some []\<rparr>))) = Map.empty
   \<and> snd (handler demo_world (demo_argv\<lparr>debug := False, viewports := Some []\<rparr>)) = 0"
  using empty_viewports_capture_nothing
          [of "demo_argv\<lparr>debug := False, viewports := Some []\<rparr>" demo_world Map.empty]
    started_demo[where d = False and v = "Some []"]
  by (simp add: list_all_iff)

end
